theory Spec2Isabelle
  imports Main "HOL-Library.Word" "HOL-Library.Sublist"
begin

unbundle bit_operations_syntax

section \<open>Machine types and configuration\<close>

text \<open>
  \<^verbatim>\<open>VirtualMemory.cpp\<close> computes on \<^verbatim>\<open>uint64_t\<close> (addresses, frame and page numbers)
  and on \<^verbatim>\<open>word_t\<close>, the content of one memory cell, a 32-bit signed integer.
\<close>

type_synonym u64 = "64 word"
type_synonym word_t = "32 word"

text \<open>
  \<^verbatim>\<open>MemoryConstants.h\<close> is not part of the sources at hand. The constants the code
  uses are parameters: the number of bits of a page offset, the depth of the table tree
  and the number of physical frames.
\<close>

record config =
  OFFSET_WIDTH :: nat
  TABLES_DEPTH :: nat
  NUM_FRAMES :: u64

text \<open>
  Modelled from the spec: the macros of \<^verbatim>\<open>MemoryConstants.h\<close>. The branching factor is
  a power of two with logarithm \<^verbatim>\<open>OFFSET_WIDTH\<close>, the total virtual page count is
  \<open>2 ^ (depth * log2 (branching factor))\<close>, and a virtual address is
  \<open>page_number * page_size + offset\<close>.
\<close>

definition PAGE_SIZE :: "config \<Rightarrow> u64" where
  "PAGE_SIZE c = 2 ^ OFFSET_WIDTH c"

definition NUM_PAGES :: "config \<Rightarrow> u64" where
  "NUM_PAGES c = 2 ^ (TABLES_DEPTH c * OFFSET_WIDTH c)"

definition VIRTUAL_MEMORY_SIZE :: "config \<Rightarrow> u64" where
  "VIRTUAL_MEMORY_SIZE c = NUM_PAGES c * PAGE_SIZE c"

definition UINT64_MAX :: u64 where
  "UINT64_MAX = - 1"

text \<open>
  A configuration the code is meant for: every size fits its C type (the sizes are
  \<^verbatim>\<open>long long\<close>, a frame number is stored in a \<^verbatim>\<open>word_t\<close>), and the physical memory
  holds more frames than the tree is deep, so that one full path of tables and its data
  page fit.
\<close>

definition valid_config :: "config \<Rightarrow> bool" where
  "valid_config c \<longleftrightarrow>
     0 < OFFSET_WIDTH c \<and> 0 < TABLES_DEPTH c
     \<and> (TABLES_DEPTH c + 1) * OFFSET_WIDTH c < 64
     \<and> unat (NUM_FRAMES c) * 2 ^ OFFSET_WIDTH c < 2 ^ 63
     \<and> unat (NUM_FRAMES c) \<le> 2 ^ 31
     \<and> TABLES_DEPTH c < unat (NUM_FRAMES c)"

section \<open>Physical memory\<close>

text \<open>
  Modelled from the spec: the physical memory substrate (\<^verbatim>\<open>PhysicalMemory.h/.cpp\<close>,
  absent from the sources). It is a word-addressable store with
  \<open>readWord\<close> and \<open>writeWord\<close>, and a swap store keyed by virtual page number:
  \<open>evict\<close> moves the frame's current data page to the swap store under the page
  number, \<open>restore\<close> loads the page previously stored under the page number into the
  frame. The spec does not say what \<open>restore\<close> does for a page that was never stored;
  here it leaves the frame as it is.
\<close>

record pm_state =
  ram :: "u64 \<Rightarrow> word_t"
  swap :: "u64 \<Rightarrow> (u64 \<Rightarrow> word_t) option"

definition PMread :: "u64 \<Rightarrow> pm_state \<Rightarrow> word_t" where
  "PMread physicalAddress s = ram s physicalAddress"

definition PMwrite :: "u64 \<Rightarrow> word_t \<Rightarrow> pm_state \<Rightarrow> pm_state" where
  "PMwrite physicalAddress v s = s\<lparr>ram := (ram s)(physicalAddress := v)\<rparr>"

definition PMevict :: "config \<Rightarrow> u64 \<Rightarrow> u64 \<Rightarrow> pm_state \<Rightarrow> pm_state" where
  "PMevict c frameIndex evictedPageIndex s =
     s\<lparr>swap := (swap s)(evictedPageIndex \<mapsto>
          (\<lambda>i. ram s (frameIndex * PAGE_SIZE c + i)))\<rparr>"

definition PMrestore :: "config \<Rightarrow> u64 \<Rightarrow> u64 \<Rightarrow> pm_state \<Rightarrow> pm_state" where
  "PMrestore c frameIndex restoredPageIndex s =
     (case swap s restoredPageIndex of
        None \<Rightarrow> s
      | Some pg \<Rightarrow>
          s\<lparr>ram := (\<lambda>a. if a - frameIndex * PAGE_SIZE c < PAGE_SIZE c
                          then pg (a - frameIndex * PAGE_SIZE c) else ram s a)\<rparr>)"

section \<open>Helpers\<close>

definition phys :: "config \<Rightarrow> u64 \<Rightarrow> u64 \<Rightarrow> u64" where
  "phys c frame row = frame * PAGE_SIZE c + row"

definition offsetOf :: "config \<Rightarrow> u64 \<Rightarrow> u64" where
  "offsetOf c va = va AND (PAGE_SIZE c - 1)"

definition indexAtLevel :: "config \<Rightarrow> u64 \<Rightarrow> nat \<Rightarrow> u64" where
  "indexAtLevel c va level =
     (let k = OFFSET_WIDTH c + OFFSET_WIDTH c * (TABLES_DEPTH c - 1 - level)
      in drop_bit k va AND (PAGE_SIZE c - 1))"

text \<open>The values of the loop counter of \<^verbatim>\<open>for (row = 0; row < PAGE_SIZE; ++row)\<close>.\<close>

definition rows :: "config \<Rightarrow> u64 list" where
  "rows c = map of_nat [0 ..< unat (PAGE_SIZE c)]"

definition clearFrame :: "config \<Rightarrow> u64 \<Rightarrow> bool \<Rightarrow> pm_state \<Rightarrow> pm_state" where
  "clearFrame c frame isLeaf s =
     (if isLeaf then s
      else fold (\<lambda>i. PMwrite (phys c frame i) 0) (rows c) s)"

section \<open>The depth-first scan\<close>

record scanInfo =
  emptyFrame :: u64
  emptyParent :: u64
  emptyRowInParent :: u64
  maxFrame :: u64
  victimFrame :: u64
  victimParent :: u64
  victimRowInParent :: u64
  victimPage :: u64
  victimDistance :: u64

text \<open>The default member initialisers of \<^verbatim>\<open>struct scanInfo\<close>.\<close>

definition scanInfo_init :: scanInfo where
  "scanInfo_init =
     \<lparr>emptyFrame = UINT64_MAX, emptyParent = UINT64_MAX, emptyRowInParent = UINT64_MAX,
      maxFrame = 0,
      victimFrame = UINT64_MAX, victimParent = UINT64_MAX, victimRowInParent = 0,
      victimPage = 0, victimDistance = 0\<rparr>"

definition cyclicDistance :: "config \<Rightarrow> u64 \<Rightarrow> u64 \<Rightarrow> u64" where
  "cyclicDistance c a b =
     (let diff = (if a > b then a - b else b - a)
      in min diff (NUM_PAGES c - diff))"

text \<open>The data-page branch of the loop body of \<^verbatim>\<open>scan\<close> (lines 125 to 137).\<close>

definition scan_leaf :: "config \<Rightarrow> u64 \<Rightarrow> u64 \<Rightarrow> u64 \<Rightarrow> u64 \<Rightarrow> u64 \<Rightarrow> scanInfo \<Rightarrow> scanInfo" where
  "scan_leaf c frame row entry newPrefix targetPage info =
     (let dist = cyclicDistance c newPrefix targetPage
      in if dist > victimDistance info
         then info\<lparr>victimDistance := dist, victimFrame := entry, victimPage := newPrefix,
                   victimRowInParent := row, victimParent := frame\<rparr>
         else info)"

text \<open>The code after the loop of \<^verbatim>\<open>scan\<close> (lines 140 to 168).\<close>

definition scan_finish :: "config \<Rightarrow> pm_state \<Rightarrow> u64 \<Rightarrow> u64 \<Rightarrow> bool \<Rightarrow> scanInfo \<Rightarrow> scanInfo" where
  "scan_finish c s frame parentFrame allZero info =
     (if allZero \<and> frame = parentFrame then info
      else
        let info2 =
          (if allZero \<and> frame \<noteq> 0 \<and> emptyFrame info = UINT64_MAX
           then info\<lparr>emptyFrame := frame, emptyParent := UINT64_MAX, emptyRowInParent := 0\<rparr>
           else info)
        in if emptyFrame info2 \<noteq> UINT64_MAX \<and> emptyParent info2 = UINT64_MAX
           then (case find (\<lambda>row. scast (PMread (phys c frame row) s) = emptyFrame info2) (rows c) of
                   None \<Rightarrow> info2
                 | Some row \<Rightarrow> info2\<lparr>emptyParent := frame, emptyRowInParent := row\<rparr>)
           else info2)"

text \<open>
  \<^verbatim>\<open>scan\<close> (lines 102 to 169). \<open>scan_rows\<close> is its loop over the rows of the table
  \<open>frame\<close>: the rows still to visit, the flag \<^verbatim>\<open>allZero\<close> and the accumulator
  \<^verbatim>\<open>info\<close>, which the C++ code passes by reference.
\<close>

function scan :: "config \<Rightarrow> pm_state \<Rightarrow> u64 \<Rightarrow> nat \<Rightarrow> u64 \<Rightarrow> u64 \<Rightarrow> u64 \<Rightarrow> scanInfo \<Rightarrow> scanInfo"
  and scan_rows :: "config \<Rightarrow> pm_state \<Rightarrow> u64 \<Rightarrow> nat \<Rightarrow> u64 \<Rightarrow> u64 \<Rightarrow> u64 \<Rightarrow> u64 list
                      \<Rightarrow> bool \<times> scanInfo \<Rightarrow> bool \<times> scanInfo" where
  "scan c s frame depth pagePrefix targetPage parentFrame info =
     (let (allZero, info1) =
            scan_rows c s frame depth pagePrefix targetPage parentFrame (rows c) (True, info)
      in scan_finish c s frame parentFrame allZero info1)"
| "scan_rows c s frame depth pagePrefix targetPage parentFrame [] acc = acc"
| "scan_rows c s frame depth pagePrefix targetPage parentFrame (row # rest) (allZero, info) =
     (let entry = PMread (phys c frame row) s in
      if entry = 0
      then scan_rows c s frame depth pagePrefix targetPage parentFrame rest (allZero, info)
      else
        let info' = info\<lparr>maxFrame := max (maxFrame info) (scast entry)\<rparr>;
            newPrefix = push_bit (OFFSET_WIDTH c) pagePrefix OR row
        in if depth + 1 < TABLES_DEPTH c
           then scan_rows c s frame depth pagePrefix targetPage parentFrame rest
                  (False, scan c s (scast entry) (depth + 1) newPrefix targetPage parentFrame info')
           else scan_rows c s frame depth pagePrefix targetPage parentFrame rest
                  (False, scan_leaf c frame row (scast entry) newPrefix targetPage info'))"
  by pat_completeness auto
termination
  by (relation "inv_image (less_than <*lex*> less_than)
        (\<lambda>x. case x of
           Inl (c, s, frame, depth, rest) \<Rightarrow> (TABLES_DEPTH c - depth, Suc (length (rows c)))
         | Inr (c, s, frame, depth, pagePrefix, targetPage, parentFrame, rs, acc) \<Rightarrow>
             (TABLES_DEPTH c - depth, length rs))") auto

section \<open>The frame allocator\<close>

definition allocateFrame :: "config \<Rightarrow> u64 \<Rightarrow> u64 \<Rightarrow> u64 \<Rightarrow> bool \<Rightarrow> pm_state \<Rightarrow> u64 \<times> pm_state" where
  "allocateFrame c parentFrame ParentRow targetPage isLeaf s =
     (let info = scan c s 0 0 0 targetPage parentFrame scanInfo_init in
      if emptyFrame info \<noteq> UINT64_MAX \<and> emptyFrame info \<noteq> parentFrame
      then (emptyFrame info,
            clearFrame c (emptyFrame info) isLeaf
              (PMwrite (phys c (emptyParent info) (emptyRowInParent info)) 0 s))
      else if maxFrame info + 1 < NUM_FRAMES c
      then (let newFrame = maxFrame info + 1
            in (newFrame, clearFrame c newFrame isLeaf s))
      else (victimFrame info,
            clearFrame c (victimFrame info) isLeaf
              (PMwrite (phys c (victimParent info) (victimRowInParent info)) 0
                 (PMevict c (victimFrame info) (victimPage info) s))))"

section \<open>The page-table walker\<close>

text \<open>
  One iteration of the loop of \<^verbatim>\<open>walk\<close>: from the table \<open>frame\<close> at \<open>level\<close> to its
  child. \<open>None\<close> is the early \<^verbatim>\<open>return false\<close>. The local \<^verbatim>\<open>child\<close> is a \<^verbatim>\<open>word_t\<close>:
  the new frame number is narrowed when it is stored and widened when it becomes
  \<^verbatim>\<open>frame\<close>.
\<close>

definition walk_level :: "config \<Rightarrow> u64 \<Rightarrow> bool \<Rightarrow> nat \<Rightarrow> u64 \<times> pm_state \<Rightarrow> (u64 \<times> pm_state) option" where
  "walk_level c va create level fs =
     (let frame = fst fs; s = snd fs;
          row = indexAtLevel c va level;
          child = PMread (phys c frame row) s
      in if child = 0
         then if \<not> create then None
              else
                let isLeaf = (level + 1 = TABLES_DEPTH c);
                    (newFrame, s1) = allocateFrame c frame row (drop_bit (OFFSET_WIDTH c) va) isLeaf s;
                    s2 = (if isLeaf then PMrestore c newFrame (drop_bit (OFFSET_WIDTH c) va) s1
                          else clearFrame c newFrame False s1);
                    s3 = PMwrite (phys c frame row) (ucast newFrame) s2;
                    child' = (ucast newFrame :: word_t)
                in Some (scast child', s3)
         else Some (scast child, s))"

text \<open>The loop of \<^verbatim>\<open>walk\<close> over the levels \<open>lo, \<dots>, hi - 1\<close>.\<close>

definition walk_levels :: "config \<Rightarrow> u64 \<Rightarrow> bool \<Rightarrow> nat list \<Rightarrow> u64 \<times> pm_state \<Rightarrow> (u64 \<times> pm_state) option" where
  "walk_levels c va create levels fs =
     fold (\<lambda>level acc. case acc of None \<Rightarrow> None | Some fs' \<Rightarrow> walk_level c va create level fs')
       levels (Some fs)"

definition walk :: "config \<Rightarrow> u64 \<Rightarrow> bool \<Rightarrow> pm_state \<Rightarrow> (u64 \<times> pm_state) option" where
  "walk c va create s = walk_levels c va create [0 ..< TABLES_DEPTH c] (0, s)"

section \<open>The public interface\<close>

definition VMinitialize :: "config \<Rightarrow> pm_state \<Rightarrow> pm_state" where
  "VMinitialize c s = clearFrame c 0 False s"

text \<open>
  \<^verbatim>\<open>VMread\<close> and \<^verbatim>\<open>VMwrite\<close> ignore the result of \<^verbatim>\<open>walk\<close>. Had \<^verbatim>\<open>walk\<close> returned
  false, \<^verbatim>\<open>leafFrame\<close> would be read uninitialised: that is the result \<open>None\<close> here.
  Otherwise the result is the returned \<^verbatim>\<open>int\<close>, for a read the word stored to
  \<^verbatim>\<open>*value\<close> (if any), and the new state.
\<close>

definition VMread :: "config \<Rightarrow> u64 \<Rightarrow> pm_state \<Rightarrow> (int \<times> word_t option \<times> pm_state) option" where
  "VMread c virtualAddress s =
     (if virtualAddress \<ge> VIRTUAL_MEMORY_SIZE c then Some (0, None, s)
      else case walk c virtualAddress True s of
             None \<Rightarrow> None
           | Some (leafFrame, s') \<Rightarrow>
               Some (1, Some (PMread (phys c leafFrame (offsetOf c virtualAddress)) s'), s'))"

definition VMwrite :: "config \<Rightarrow> u64 \<Rightarrow> word_t \<Rightarrow> pm_state \<Rightarrow> (int \<times> pm_state) option" where
  "VMwrite c virtualAddress v s =
     (if virtualAddress \<ge> VIRTUAL_MEMORY_SIZE c then Some (0, s)
      else case walk c virtualAddress True s of
             None \<Rightarrow> None
           | Some (leafFrame, s') \<Rightarrow>
               Some (1, PMwrite (phys c leafFrame (offsetOf c virtualAddress)) v s'))"

section \<open>The table tree, as paths from the root\<close>

text \<open>
  The frame reached from \<open>f\<close> along the rows \<open>ds\<close>, following non-zero entries:
  what \<^verbatim>\<open>walk\<close> does without creation, for any list of rows.
\<close>

fun descend :: "config \<Rightarrow> pm_state \<Rightarrow> u64 \<Rightarrow> u64 list \<Rightarrow> u64 option" where
  "descend c s f [] = Some f"
| "descend c s f (d # ds) =
     (let e = PMread (phys c f d) s in if e = 0 then None else descend c s (scast e) ds)"

definition vpath :: "config \<Rightarrow> u64 list \<Rightarrow> bool" where
  "vpath c ds \<longleftrightarrow> length ds \<le> TABLES_DEPTH c \<and> (\<forall>d \<in> set ds. d < PAGE_SIZE c)"

definition node :: "config \<Rightarrow> pm_state \<Rightarrow> u64 list \<Rightarrow> u64 \<Rightarrow> bool" where
  "node c s ds f \<longleftrightarrow> vpath c ds \<and> descend c s 0 ds = Some f"

text \<open>
  The tree is well formed when every frame of the tree is a frame of the physical memory
  and no frame is reached along two paths. The allocator keeps, in addition, the frames
  of the tree an initial segment of the frame numbers.
\<close>

definition tree_wf :: "config \<Rightarrow> pm_state \<Rightarrow> bool" where
  "tree_wf c s \<longleftrightarrow>
     (\<forall>ds f. node c s ds f \<longrightarrow> f < NUM_FRAMES c)
     \<and> (\<forall>ds ds' f. node c s ds f \<and> node c s ds' f \<longrightarrow> ds = ds')"

definition tree_inv :: "config \<Rightarrow> pm_state \<Rightarrow> bool" where
  "tree_inv c s \<longleftrightarrow>
     tree_wf c s \<and> (\<forall>ds f g. node c s ds f \<and> g \<le> f \<longrightarrow> (\<exists>ds'. node c s ds' g))"

definition in_frame :: "config \<Rightarrow> u64 \<Rightarrow> u64 \<Rightarrow> bool" where
  "in_frame c frame a \<longleftrightarrow> a - frame * PAGE_SIZE c < PAGE_SIZE c"

text \<open>A table without children, or a data page, leaves the tree when its entry is zeroed.\<close>

definition childless :: "config \<Rightarrow> pm_state \<Rightarrow> u64 list \<Rightarrow> u64 \<Rightarrow> bool" where
  "childless c s ds f \<longleftrightarrow>
     length ds = TABLES_DEPTH c \<or> (\<forall>r < PAGE_SIZE c. PMread (phys c f r) s = 0)"

section \<open>What the scan computes\<close>

text \<open>The frames strictly below \<open>f\<close>, at most \<open>n\<close> levels down.\<close>

definition below :: "config \<Rightarrow> pm_state \<Rightarrow> u64 \<Rightarrow> nat \<Rightarrow> u64 set" where
  "below c s f n =
     {g. \<exists>ds. ds \<noteq> [] \<and> length ds \<le> n \<and> (\<forall>d \<in> set ds. d < PAGE_SIZE c) \<and> descend c s f ds = Some g}"

definition below_rows :: "config \<Rightarrow> pm_state \<Rightarrow> u64 \<Rightarrow> nat \<Rightarrow> u64 list \<Rightarrow> u64 set" where
  "below_rows c s f n rs =
     {g. \<exists>d ds. d \<in> set rs \<and> length ds < n \<and> (\<forall>x \<in> set ds. x < PAGE_SIZE c)
            \<and> descend c s f (d # ds) = Some g}"

definition is_max_of :: "u64 \<Rightarrow> u64 set \<Rightarrow> u64 \<Rightarrow> bool" where
  "is_max_of m0 S m \<longleftrightarrow> m0 \<le> m \<and> (\<forall>g \<in> S. g \<le> m) \<and> (m = m0 \<or> m \<in> S)"

text \<open>
  The data pages of the tree below the table \<open>frame\<close>, in the order in which \<^verbatim>\<open>scan\<close>
  meets them: for each the page number \<^verbatim>\<open>newPrefix\<close>, its frame, the table that
  refers to it and the row of the entry.
\<close>

record leaf =
  leafPage :: u64
  leafFrame :: u64
  leafParent :: u64
  leafRow :: u64

function leaves :: "config \<Rightarrow> pm_state \<Rightarrow> u64 \<Rightarrow> nat \<Rightarrow> u64 \<Rightarrow> leaf list"
  and leaves_rows :: "config \<Rightarrow> pm_state \<Rightarrow> u64 \<Rightarrow> nat \<Rightarrow> u64 \<Rightarrow> u64 list \<Rightarrow> leaf list" where
  "leaves c s frame depth pagePrefix = leaves_rows c s frame depth pagePrefix (rows c)"
| "leaves_rows c s frame depth pagePrefix [] = []"
| "leaves_rows c s frame depth pagePrefix (row # rest) =
     (let entry = PMread (phys c frame row) s in
      if entry = 0 then leaves_rows c s frame depth pagePrefix rest
      else
        let newPrefix = push_bit (OFFSET_WIDTH c) pagePrefix OR row
        in (if depth + 1 < TABLES_DEPTH c
            then leaves c s (scast entry) (depth + 1) newPrefix
            else [\<lparr>leafPage = newPrefix, leafFrame = scast entry,
                   leafParent = frame, leafRow = row\<rparr>])
           @ leaves_rows c s frame depth pagePrefix rest)"
  by pat_completeness auto

termination
  by (relation "inv_image (less_than <*lex*> less_than)
        (\<lambda>x. case x of
           Inl (c, s, frame, depth, rest) \<Rightarrow> (TABLES_DEPTH c - depth, Suc (length (rows c)))
         | Inr (c, s, frame, depth, pagePrefix, rs) \<Rightarrow> (TABLES_DEPTH c - depth, length rs))") auto

type_synonym victim = "u64 \<times> u64 \<times> u64 \<times> u64 \<times> u64"

definition vproj :: "scanInfo \<Rightarrow> victim" where
  "vproj info = (victimDistance info, victimFrame info, victimPage info,
                 victimRowInParent info, victimParent info)"

definition leaf_dist :: "config \<Rightarrow> u64 \<Rightarrow> leaf \<Rightarrow> u64" where
  "leaf_dist c targetPage x = cyclicDistance c (leafPage x) targetPage"

definition leaf_victim :: "config \<Rightarrow> u64 \<Rightarrow> leaf \<Rightarrow> victim" where
  "leaf_victim c targetPage x =
     (leaf_dist c targetPage x, leafFrame x, leafPage x, leafRow x, leafParent x)"

definition vstep :: "config \<Rightarrow> u64 \<Rightarrow> leaf \<Rightarrow> victim \<Rightarrow> victim" where
  "vstep c targetPage x v = (if leaf_dist c targetPage x > fst v then leaf_victim c targetPage x else v)"

definition page_from :: "config \<Rightarrow> u64 \<Rightarrow> u64 list \<Rightarrow> u64" where
  "page_from c pagePrefix ds = foldl (\<lambda>a d. push_bit (OFFSET_WIDTH c) a OR d) pagePrefix ds"

definition leaf_at :: "config \<Rightarrow> pm_state \<Rightarrow> u64 \<Rightarrow> u64 \<Rightarrow> u64 list \<Rightarrow> leaf \<Rightarrow> bool" where
  "leaf_at c s frame pagePrefix q x \<longleftrightarrow>
     q \<noteq> [] \<and> descend c s frame (butlast q) = Some (leafParent x)
     \<and> descend c s frame q = Some (leafFrame x)
     \<and> leafRow x = last q \<and> leafPage x = page_from c pagePrefix q"

definition page_of :: "config \<Rightarrow> u64 list \<Rightarrow> u64" where
  "page_of c ds = page_from c 0 ds"

definition empty_table :: "config \<Rightarrow> pm_state \<Rightarrow> u64 \<Rightarrow> bool" where
  "empty_table c s f \<longleftrightarrow> (\<forall>r < PAGE_SIZE c. PMread (phys c f r) s = 0)"

text \<open>
  The tables the allocator may reuse: a table of the tree without entries that is
  neither the root nor the table being populated.
\<close>

definition candidate :: "config \<Rightarrow> pm_state \<Rightarrow> u64 \<Rightarrow> u64 list \<Rightarrow> u64 \<Rightarrow> bool" where
  "candidate c s pf ds f \<longleftrightarrow>
     node c s ds f \<and> length ds < TABLES_DEPTH c \<and> empty_table c s f \<and> f \<noteq> 0 \<and> f \<noteq> pf"

definition eproj :: "scanInfo \<Rightarrow> u64 \<times> u64 \<times> u64" where
  "eproj info = (emptyFrame info, emptyParent info, emptyRowInParent info)"

definition resolved :: "config \<Rightarrow> pm_state \<Rightarrow> u64 \<Rightarrow> scanInfo \<Rightarrow> bool" where
  "resolved c s pf info \<longleftrightarrow>
     (\<exists>ds r. candidate c s pf (ds @ [r]) (emptyFrame info) \<and> node c s ds (emptyParent info)
            \<and> emptyRowInParent info = r)"

definition pending :: "config \<Rightarrow> pm_state \<Rightarrow> u64 list \<Rightarrow> scanInfo \<Rightarrow> bool" where
  "pending c s k info \<longleftrightarrow>
     k \<noteq> [] \<and> node c s k (emptyFrame info) \<and> emptyParent info = UINT64_MAX"

definition no_cand_under :: "config \<Rightarrow> pm_state \<Rightarrow> u64 \<Rightarrow> u64 list \<Rightarrow> bool" where
  "no_cand_under c s pf p \<longleftrightarrow> (\<forall>ds f. candidate c s pf ds f \<longrightarrow> \<not> prefix p ds)"

definition scan_post :: "config \<Rightarrow> pm_state \<Rightarrow> u64 \<Rightarrow> u64 list \<Rightarrow> u64 \<Rightarrow> scanInfo \<Rightarrow> bool" where
  "scan_post c s pf p frame R \<longleftrightarrow>
     (emptyFrame R = UINT64_MAX \<and> no_cand_under c s pf p)
     \<or> (emptyFrame R \<noteq> UINT64_MAX \<and> emptyParent R \<noteq> UINT64_MAX \<and> resolved c s pf R)
     \<or> (emptyParent R = UINT64_MAX \<and> emptyFrame R = frame \<and> candidate c s pf p frame)"

definition rows_inv ::
  "config \<Rightarrow> pm_state \<Rightarrow> u64 \<Rightarrow> u64 list \<Rightarrow> u64 \<Rightarrow> u64 set \<Rightarrow> bool \<times> scanInfo \<Rightarrow> bool" where
  "rows_inv c s pf p frame X acc \<longleftrightarrow>
     (fst acc \<longleftrightarrow> (\<forall>r \<in> X. PMread (phys c frame r) s = 0))
     \<and> ((emptyFrame (snd acc) = UINT64_MAX \<and> (\<forall>r \<in> X. no_cand_under c s pf (p @ [r])))
        \<or> (emptyFrame (snd acc) \<noteq> UINT64_MAX \<and> emptyParent (snd acc) \<noteq> UINT64_MAX
             \<and> resolved c s pf (snd acc))
        \<or> (\<exists>r \<in> X. emptyParent (snd acc) = UINT64_MAX
             \<and> candidate c s pf (p @ [r]) (emptyFrame (snd acc))))"

section \<open>The digits of a page number\<close>

definition digits :: "config \<Rightarrow> u64 \<Rightarrow> u64 list" where
  "digits c va = map (indexAtLevel c va) [0 ..< TABLES_DEPTH c]"

section \<open>A page fault\<close>

text \<open>
  The walker calls the allocator for the entry \<open>row\<close> of a table \<open>F\<close> of the tree,
  reached along \<open>p\<close>, when that entry is empty; the target page is one whose path runs
  through that entry.
\<close>

definition fault_ctx :: "config \<Rightarrow> pm_state \<Rightarrow> u64 list \<Rightarrow> u64 \<Rightarrow> u64 \<Rightarrow> u64 \<Rightarrow> bool" where
  "fault_ctx c s p F row t \<longleftrightarrow>
     valid_config c \<and> tree_inv c s \<and> node c s p F \<and> length p < TABLES_DEPTH c
     \<and> row < PAGE_SIZE c \<and> PMread (phys c F row) s = 0
     \<and> (\<exists>q0. vpath c q0 \<and> length q0 = TABLES_DEPTH c \<and> prefix (p @ [row]) q0 \<and> t = page_of c q0)"

text \<open>
  What resolving a fault does: the frame \<open>X\<close> is linked under the empty entry; if it was
  taken from the tree, at the path \<open>K\<close>, it is no longer there; the other data pages keep
  their frames and contents; an evicted page is in the swap store; a restored page has the
  content the swap store held for it.
\<close>

definition fault_post ::
  "config \<Rightarrow> pm_state \<Rightarrow> u64 list \<Rightarrow> u64 \<Rightarrow> u64 \<Rightarrow> u64 \<Rightarrow> pm_state \<Rightarrow> u64 list option \<Rightarrow> bool" where
  "fault_post c s p row t X s3 K \<longleftrightarrow>
     (\<forall>ds f. node c s3 ds f \<longleftrightarrow> (node c s ds f \<and> Some ds \<noteq> K) \<or> (ds = p @ [row] \<and> f = X))
     \<and> (\<forall>k. K = Some k \<longrightarrow> node c s k X)
     \<and> (K = None \<longrightarrow> (\<forall>ds. \<not> node c s ds X) \<and> (\<forall>g < X. \<exists>ds. node c s ds g))
     \<and> X < NUM_FRAMES c \<and> X \<noteq> 0
     \<and> (\<forall>q f off. node c s q f \<and> length q = TABLES_DEPTH c \<and> Some q \<noteq> K \<and> off < PAGE_SIZE c
           \<longrightarrow> ram s3 (phys c f off) = ram s (phys c f off))
     \<and> swap s3 = (case K of
                    None \<Rightarrow> swap s
                  | Some k \<Rightarrow> if length k = TABLES_DEPTH c
                              then (swap s)(page_of c k \<mapsto> (\<lambda>i. ram s (phys c X i)))
                              else swap s)
     \<and> (length p + 1 = TABLES_DEPTH c \<longrightarrow>
          (\<forall>pg off. swap s3 t = Some pg \<and> off < PAGE_SIZE c \<longrightarrow> ram s3 (phys c X off) = pg off))"

section \<open>The content of the virtual memory\<close>

text \<open>
  The word at a virtual address: in the frame of its page when the page is mapped, else in
  the swap store when the page was evicted, else undetermined.
\<close>

definition view :: "config \<Rightarrow> pm_state \<Rightarrow> u64 \<Rightarrow> word_t option" where
  "view c s va =
     (case descend c s 0 (digits c va) of
        Some f \<Rightarrow> Some (ram s (phys c f (offsetOf c va)))
      | None \<Rightarrow> (case swap s (drop_bit (OFFSET_WIDTH c) va) of
                   Some pg \<Rightarrow> Some (pg (offsetOf c va))
                 | None \<Rightarrow> None))"

definition view_kept :: "config \<Rightarrow> pm_state \<Rightarrow> pm_state \<Rightarrow> bool" where
  "view_kept c s s' \<longleftrightarrow>
     (\<forall>a x. a < VIRTUAL_MEMORY_SIZE c \<and> view c s a = Some x \<longrightarrow> view c s' a = Some x)"

section \<open>Runs of the public interface\<close>

datatype vm_op = Read u64 | Write u64 word_t

definition step :: "config \<Rightarrow> vm_op \<Rightarrow> pm_state \<Rightarrow> pm_state option" where
  "step c op s =
     (case op of
        Read a \<Rightarrow> map_option (\<lambda>r. snd (snd r)) (VMread c a s)
      | Write a x \<Rightarrow> map_option snd (VMwrite c a x s))"

fun run :: "config \<Rightarrow> vm_op list \<Rightarrow> pm_state \<Rightarrow> pm_state option" where
  "run c [] s = Some s"
| "run c (op # ops) s = (case step c op s of None \<Rightarrow> None | Some s' \<Rightarrow> run c ops s')"

text \<open>The states after \<^verbatim>\<open>VMinitialize\<close> and any number of reads and writes.\<close>

inductive reachable :: "config \<Rightarrow> pm_state \<Rightarrow> bool" for c :: config where
  init: "reachable c (VMinitialize c s0)"
| step: "reachable c s \<Longrightarrow> step c op s = Some s' \<Longrightarrow> reachable c s'"

text \<open>
  The walker at the start of the iteration \<open>level\<close> of \<^verbatim>\<open>walk(va, true, _)\<close>, called in a
  reachable state for an address in range: its current table and the state of the memory.
  It calls the allocator when the entry it reads there is empty.
\<close>

definition walking :: "config \<Rightarrow> u64 \<Rightarrow> nat \<Rightarrow> u64 \<Rightarrow> pm_state \<Rightarrow> bool" where
  "walking c va level frame s \<longleftrightarrow>
     (\<exists>s0. reachable c s0 \<and> va < VIRTUAL_MEMORY_SIZE c \<and> level \<le> TABLES_DEPTH c
           \<and> walk_levels c va True [0 ..< level] (0, s0) = Some (frame, s))"

definition walker_call :: "config \<Rightarrow> u64 \<Rightarrow> nat \<Rightarrow> u64 \<Rightarrow> pm_state \<Rightarrow> bool" where
  "walker_call c va level frame s \<longleftrightarrow>
     walking c va level frame s \<and> level < TABLES_DEPTH c
     \<and> PMread (phys c frame (indexAtLevel c va level)) s = 0"

section \<open>An example run\<close>

text \<open>
  The configuration of the spec's example scenarios: branching factor 4, depth 2 (16
  virtual pages), 3 physical frames.
\<close>

definition example_config :: config where
  "example_config = \<lparr>OFFSET_WIDTH = 2, TABLES_DEPTH = 2, NUM_FRAMES = 3\<rparr>"

text \<open>
  A memory of zeros with an empty swap store, and the state after \<^verbatim>\<open>VMinitialize\<close> and
  one write to the address 0: the root (frame 0), one table (frame 1) and the data page 0
  (frame 2) take the three frames, so that the next fault evicts.
\<close>

definition init_state :: pm_state where
  "init_state = \<lparr>ram = (\<lambda>_. 0), swap = (\<lambda>_. None)\<rparr>"

definition example_state :: pm_state where
  "example_state = snd (the (VMwrite example_config 0 7 (VMinitialize example_config init_state)))"

text \<open>
  The state in the middle of the first walk, after the walker has created the table of
  frame 1 under the root entry 0: that table is empty and frame 2 is still unused.
\<close>

definition reuse_state :: pm_state where
  "reuse_state =
     snd (the (walk_levels example_config 0 True [0 ..< 1] (0, VMinitialize example_config init_state)))"



text \<open>The page 6 mapped along the rows 1 and 2.\<close>

definition path_state :: pm_state where
  "path_state = snd (the (VMwrite example_config 27 7 (VMinitialize example_config init_state)))"

section \<open>Cyclic distance\<close>

lemma cyclicDistance_commute: "cyclicDistance c a b = cyclicDistance c b a"
  unfolding cyclicDistance_def Let_def
  by (cases "a = b"; cases "a < b"; cases "b < a") (auto simp: not_less)

lemma min_sub_le_half:
  fixes d n :: u64
  assumes "d < n"
  shows "min d (n - d) \<le> n div 2"
proof -
  have le: "d \<le> n" using assms by simp
  have s: "unat (n - d) = unat n - unat d" using le by (simp add: unat_sub)
  have dv: "unat (n div 2) = unat n div 2" by (simp add: unat_div)
  have "min (unat d) (unat n - unat d) \<le> unat n div 2" by (simp add: min_def) linarith
  then show ?thesis
    unfolding word_le_nat_alt min_def dv using s
    by (auto split: if_splits)
qed

lemma word_sub_less:
  fixes x y n :: u64
  assumes "y \<le> x" "x < n"
  shows "x - y < n"
  using assms by (meson le_less_trans word_sub_le)

lemma cyclicDistance_bound:
  assumes "a < NUM_PAGES c" "b < NUM_PAGES c"
  shows "cyclicDistance c a b \<le> NUM_PAGES c div 2"
  unfolding cyclicDistance_def Let_def
  using assms by (auto intro!: min_sub_le_half word_sub_less simp: not_less)

text \<open>
  Claim C9. For all page numbers \<open>a\<close> and \<open>b\<close> below \<^verbatim>\<open>NUM_PAGES\<close>, the cyclic distance
  is symmetric and at most \<^verbatim>\<open>NUM_PAGES / 2\<close>.
\<close>

theorem cyclicDistance_correct:
  "a < NUM_PAGES c \<Longrightarrow> b < NUM_PAGES c \<Longrightarrow>
     cyclicDistance c a b = cyclicDistance c b a \<and> cyclicDistance c a b \<le> NUM_PAGES c div 2"
  using cyclicDistance_commute cyclicDistance_bound by blast

theorem cyclicDistance_correct_witness:
  "(1::u64) < NUM_PAGES example_config \<and> (14::u64) < NUM_PAGES example_config
   \<and> cyclicDistance example_config 1 14 = 3
   \<and> cyclicDistance example_config 14 1 = 3
   \<and> cyclicDistance example_config 1 14 \<le> NUM_PAGES example_config div 2"
  using cyclicDistance_correct [of 1 example_config 14]
  by (simp add: NUM_PAGES_def cyclicDistance_def example_config_def)

section \<open>Words and addresses\<close>

lemma valid_config_W: "valid_config c \<Longrightarrow> OFFSET_WIDTH c < 64"
  unfolding valid_config_def
  by (metis add_lessD1 mult.commute mult_Suc_right Suc_eq_plus1)

lemma valid_config_DW: "valid_config c \<Longrightarrow> TABLES_DEPTH c * OFFSET_WIDTH c + OFFSET_WIDTH c < 64"
  unfolding valid_config_def by (simp add: algebra_simps)

lemma unat_2p64: "n < 64 \<Longrightarrow> unat ((2::u64) ^ n) = 2 ^ n"
proof -
  assume n: "n < 64"
  have "(2::nat) ^ n < 2 ^ 64" using n by (intro power_strict_increasing) simp_all
  moreover have "(2::u64) ^ n = of_nat (2 ^ n)" by simp
  ultimately show ?thesis by (simp only: unat_of_nat) simp
qed

lemma unat_PAGE_SIZE: "valid_config c \<Longrightarrow> unat (PAGE_SIZE c) = 2 ^ OFFSET_WIDTH c"
  using valid_config_W [of c] by (simp add: PAGE_SIZE_def unat_2p64)

lemma PAGE_SIZE_pos: "valid_config c \<Longrightarrow> 0 < PAGE_SIZE c"
  using unat_PAGE_SIZE [of c] by (simp add: word_less_nat_alt)

lemma set_rows: "set (rows c) = {r. r < PAGE_SIZE c}"
proof -
  have "r \<in> set (rows c) \<longleftrightarrow> r < PAGE_SIZE c" for r
  proof
    assume "r \<in> set (rows c)"
    then obtain n where n: "n < unat (PAGE_SIZE c)" "r = of_nat n"
      by (auto simp: rows_def)
    then have "unat r = n"
      by (metis le_unat_uoi less_imp_le_nat)
    then show "r < PAGE_SIZE c" using n by (simp add: word_less_nat_alt)
  next
    assume "r < PAGE_SIZE c"
    then have "unat r < unat (PAGE_SIZE c)" by (simp add: word_less_nat_alt)
    then have "of_nat (unat r) \<in> set (rows c)"
      unfolding rows_def by (metis atLeastLessThan_iff imageI le0 set_map set_upt)
    then show "r \<in> set (rows c)" by simp
  qed
  then show ?thesis by auto
qed

lemma unat_of_nat_row: "n < unat (PAGE_SIZE c) \<Longrightarrow> unat (of_nat n :: u64) = n"
  by (rule le_unat_uoi [where z = "PAGE_SIZE c"]) simp

lemma distinct_rows: "distinct (rows c)"
proof -
  have "inj_on (of_nat :: nat \<Rightarrow> u64) (set [0 ..< unat (PAGE_SIZE c)])"
  proof (rule inj_onI)
    fix x y assume a: "x \<in> set [0 ..< unat (PAGE_SIZE c)]" "y \<in> set [0 ..< unat (PAGE_SIZE c)]"
      and e: "(of_nat x :: u64) = of_nat y"
    have "unat (of_nat x :: u64) = x" "unat (of_nat y :: u64) = y"
      using a by (auto intro: unat_of_nat_row)
    then show "x = y" using e by metis
  qed
  then show ?thesis unfolding rows_def distinct_map by simp
qed

lemma unat_phys:
  assumes "valid_config c" "f < NUM_FRAMES c" "r < PAGE_SIZE c"
  shows "unat (phys c f r) = unat f * 2 ^ OFFSET_WIDTH c + unat r"
proof -
  let ?P = "(2::nat) ^ OFFSET_WIDTH c"
  have f: "unat f < unat (NUM_FRAMES c)" using assms by (simp add: word_less_nat_alt)
  have r: "unat r < ?P" using assms unat_PAGE_SIZE by (simp add: word_less_nat_alt)
  have nf: "unat (NUM_FRAMES c) * ?P < 2 ^ 63" using assms by (simp add: valid_config_def)
  have "(unat f + 1) * ?P \<le> unat (NUM_FRAMES c) * ?P"
    using f by (intro mult_le_mono1) simp
  then have b: "unat f * ?P + unat r < 2 ^ 63" using r nf by (simp add: algebra_simps)
  have m: "unat (f * PAGE_SIZE c) = unat f * ?P"
    using b unat_PAGE_SIZE [OF assms(1)] by (simp add: unat_word_ariths)
  show ?thesis unfolding phys_def using b m by (simp add: unat_word_ariths)
qed

lemma phys_inj:
  assumes "valid_config c" "f < NUM_FRAMES c" "r < PAGE_SIZE c" "f' < NUM_FRAMES c" "r' < PAGE_SIZE c"
  shows "phys c f r = phys c f' r' \<longleftrightarrow> f = f' \<and> r = r'"
proof
  assume e: "phys c f r = phys c f' r'"
  let ?P = "(2::nat) ^ OFFSET_WIDTH c"
  have r: "unat r < ?P" "unat r' < ?P" using assms unat_PAGE_SIZE by (simp_all add: word_less_nat_alt)
  have "unat f * ?P + unat r = unat f' * ?P + unat r'"
    using e unat_phys assms by metis
  then have "(unat f * ?P + unat r) div ?P = (unat f' * ?P + unat r') div ?P"
    "(unat f * ?P + unat r) mod ?P = (unat f' * ?P + unat r') mod ?P" by simp_all
  then have "unat f = unat f'" "unat r = unat r'" using r by simp_all
  then show "f = f' \<and> r = r'" by (simp add: word_unat_eq_iff)
qed simp

lemma sint_scast32: "sint (scast (e :: word_t) :: u64) = sint e"
  by (rule sint_up_scast) (simp add: is_up)

lemma scast_inj [simp]: "(scast (e :: word_t) :: u64) = scast e' \<longleftrightarrow> e = e'"
  by (metis sint_scast32 signed_word_eqI)

lemma scast_eq_0 [simp]: "(scast (e :: word_t) :: u64) = 0 \<longleftrightarrow> e = 0"
  using scast_inj [of e 0] by (simp del: scast_inj)

lemma small_bits:
  fixes f :: u64
  assumes "unat f < 2 ^ 31" "bit f n"
  shows "n < 31"
proof -
  have "f < 2 ^ 31" using assms(1) by (simp add: word_less_nat_alt)
  then have "f AND mask 31 = f" by (rule less_mask_eq)
  then have "bit (f AND mask 31) n" using assms(2) by simp
  then show ?thesis by (simp add: bit_and_iff bit_mask_iff)
qed

lemma frame_cast:
  fixes f :: u64
  assumes "unat f < 2 ^ 31"
  shows "(scast (ucast f :: word_t) :: u64) = f"
proof (rule bit_word_eqI)
  fix n assume "n < LENGTH(64)"
  have 1: "bit f n \<Longrightarrow> n < 32" using small_bits [OF assms, of n] by simp
  have 2: "\<not> bit f 31" using small_bits [OF assms, of 31] by auto
  show "bit (scast (ucast f :: word_t) :: u64) n = bit f n"
    using 1 2 \<open>n < LENGTH(64)\<close>
    by (auto simp: bit_word_scast_iff bit_word_ucast_iff)
qed

lemma ucast_frame_eq_0:
  fixes f :: u64
  assumes "unat f < 2 ^ 31"
  shows "(ucast f :: word_t) = 0 \<longleftrightarrow> f = 0"
  by (metis assms frame_cast scast_eq_0)

section \<open>The page-table tree\<close>

lemma descend_append:
  "descend c s f (xs @ ys) =
     (case descend c s f xs of None \<Rightarrow> None | Some g \<Rightarrow> descend c s g ys)"
  by (induction xs arbitrary: f) (auto simp: Let_def)

lemma descend_snoc:
  "descend c s f (xs @ [d]) =
     (case descend c s f xs of
        None \<Rightarrow> None
      | Some g \<Rightarrow> (if PMread (phys c g d) s = 0 then None else Some (scast (PMread (phys c g d) s))))"
  by (simp add: descend_append Let_def split: option.splits)

lemma vpath_Nil [simp]: "vpath c []"
  by (simp add: vpath_def)

lemma vpath_append: "vpath c (xs @ ys) \<Longrightarrow> vpath c xs"
  by (auto simp: vpath_def)

lemma vpath_snoc:
  "vpath c (xs @ [d]) \<longleftrightarrow> vpath c xs \<and> length xs < TABLES_DEPTH c \<and> d < PAGE_SIZE c"
  by (auto simp: vpath_def)

lemma node_Nil [simp]: "node c s [] f \<longleftrightarrow> f = 0"
  by (auto simp: node_def)

lemma node_fun: "node c s ds f \<Longrightarrow> node c s ds g \<Longrightarrow> f = g"
  by (simp add: node_def)

lemma node_snoc:
  "node c s (ds @ [d]) g \<longleftrightarrow>
     (\<exists>f. node c s ds f \<and> length ds < TABLES_DEPTH c \<and> d < PAGE_SIZE c
          \<and> PMread (phys c f d) s \<noteq> 0 \<and> g = scast (PMread (phys c f d) s))"
  by (auto simp: node_def vpath_snoc descend_snoc split: option.splits)

lemma node_prefix:
  assumes "node c s (xs @ ys) g"
  shows "\<exists>f. node c s xs f \<and> descend c s f ys = Some g"
  using assms unfolding node_def
  by (auto simp: descend_append dest: vpath_append split: option.splits)

lemma node_prefixE:
  assumes "node c s ds g" "prefix xs ds"
  obtains f where "node c s xs f"
  using assms node_prefix unfolding prefix_def by blast

lemma tree_inv_wf: "tree_inv c s \<Longrightarrow> tree_wf c s"
  unfolding tree_inv_def by blast

lemma tree_wf_range: "tree_wf c s \<Longrightarrow> node c s ds f \<Longrightarrow> f < NUM_FRAMES c"
  unfolding tree_wf_def by blast

lemma tree_wf_unique: "tree_wf c s \<Longrightarrow> node c s ds f \<Longrightarrow> node c s ds' f \<Longrightarrow> ds = ds'"
  unfolding tree_wf_def by blast

lemma tree_inv_closed: "tree_inv c s \<Longrightarrow> node c s ds f \<Longrightarrow> g \<le> f \<Longrightarrow> \<exists>ds'. node c s ds' g"
  unfolding tree_inv_def by blast

lemma node_frame_0: "tree_wf c s \<Longrightarrow> node c s ds 0 \<Longrightarrow> ds = []"
  using tree_wf_unique [of c s ds 0 "[]"] by simp

text \<open>The descent reads entries of table frames of the tree only.\<close>

lemma descend_agree_gen:
  assumes agree: "\<And>ds f r. node c s ds f \<Longrightarrow> length ds < TABLES_DEPTH c \<Longrightarrow> r < PAGE_SIZE c
                    \<Longrightarrow> ram s' (phys c f r) = ram s (phys c f r)"
  shows "node c s xs f \<Longrightarrow> vpath c (xs @ ys) \<Longrightarrow> descend c s' f ys = descend c s f ys"
proof (induction ys arbitrary: xs f)
  case Nil
  then show ?case by simp
next
  case (Cons d ys)
  have len: "length xs < TABLES_DEPTH c" and d: "d < PAGE_SIZE c"
    using Cons.prems(2) by (auto simp: vpath_def)
  have e: "PMread (phys c f d) s' = PMread (phys c f d) s"
    using agree [OF Cons.prems(1) len d] by (simp add: PMread_def)
  show ?case
  proof (cases "PMread (phys c f d) s = 0")
    case True
    then show ?thesis using e by simp
  next
    case False
    have n: "node c s (xs @ [d]) (scast (PMread (phys c f d) s))"
      using Cons.prems(1) len d False by (auto simp: node_snoc)
    have v: "vpath c ((xs @ [d]) @ ys)" using Cons.prems(2) by simp
    show ?thesis using Cons.IH [OF n v] e False by (simp add: Let_def)
  qed
qed

lemma descend_agree:
  assumes "\<And>ds f r. node c s ds f \<Longrightarrow> length ds < TABLES_DEPTH c \<Longrightarrow> r < PAGE_SIZE c
                    \<Longrightarrow> ram s' (phys c f r) = ram s (phys c f r)"
    and "vpath c ds"
  shows "descend c s' 0 ds = descend c s 0 ds"
  using descend_agree_gen [of c s s' "[]" 0 ds] assms by simp

lemma node_agree:
  assumes "\<And>ds f r. node c s ds f \<Longrightarrow> length ds < TABLES_DEPTH c \<Longrightarrow> r < PAGE_SIZE c
                    \<Longrightarrow> ram s' (phys c f r) = ram s (phys c f r)"
  shows "node c s' ds f \<longleftrightarrow> node c s ds f"
  using descend_agree [OF assms] unfolding node_def by auto

text \<open>Writing one entry of a table of the tree changes the paths through that entry only.\<close>

lemma descend_update_other:
  assumes v: "valid_config c" and inv: "tree_wf c s"
    and t: "node c s p f" "length p < TABLES_DEPTH c" "r < PAGE_SIZE c"
    and s': "ram s' = (ram s)(phys c f r := x)"
  shows "vpath c ds \<Longrightarrow> \<not> prefix (p @ [r]) ds \<Longrightarrow> descend c s' 0 ds = descend c s 0 ds"
proof (induction ds rule: rev_induct)
  case Nil
  then show ?case by simp
next
  case (snoc d ds)
  have vd: "vpath c ds" and len: "length ds < TABLES_DEPTH c" and d: "d < PAGE_SIZE c"
    using snoc.prems(1) by (auto simp: vpath_snoc)
  have np: "\<not> prefix (p @ [r]) ds" using snoc.prems(2) by (auto simp: prefix_def)
  have IH: "descend c s' 0 ds = descend c s 0 ds" using snoc.IH [OF vd np] .
  show ?case
  proof (cases "descend c s 0 ds")
    case None
    then show ?thesis using IH by (simp add: descend_snoc)
  next
    case (Some g)
    then have ng: "node c s ds g" using vd by (simp add: node_def)
    have "phys c g d \<noteq> phys c f r"
    proof
      assume "phys c g d = phys c f r"
      then have "g = f \<and> d = r"
        using phys_inj [OF v tree_wf_range [OF inv ng] d tree_wf_range [OF inv t(1)] t(3)] by simp
      then have "ds = p \<and> d = r" using tree_wf_unique [OF inv ng] t(1) by auto
      then show False using snoc.prems(2) by simp
    qed
    then have "PMread (phys c g d) s' = PMread (phys c g d) s"
      using s' by (simp add: PMread_def)
    then show ?thesis using IH Some by (simp add: descend_snoc)
  qed
qed

lemma descend_update_through:
  assumes v: "valid_config c" and inv: "tree_wf c s"
    and t: "node c s p f" "length p < TABLES_DEPTH c" "r < PAGE_SIZE c"
    and s': "ram s' = (ram s)(phys c f r := x)"
  shows "descend c s' 0 (p @ r # rest) = (if x = 0 then None else descend c s' (scast x) rest)"
proof -
  have "\<not> prefix (p @ [r]) p" by (simp add: prefix_def)
  moreover have "vpath c p" using t(1) by (simp add: node_def)
  ultimately have "descend c s' 0 p = Some f"
    using descend_update_other [OF v inv t s'] t(1) by (simp add: node_def)
  then show ?thesis using s' by (simp add: descend_append PMread_def Let_def)
qed

lemma node_update_other:
  assumes "valid_config c" "tree_wf c s" "node c s p f" "length p < TABLES_DEPTH c" "r < PAGE_SIZE c"
    and "ram s' = (ram s)(phys c f r := x)" and "\<not> prefix (p @ [r]) ds"
  shows "node c s' ds g \<longleftrightarrow> node c s ds g"
  using descend_update_other [OF assms(1-6)] assms(7) unfolding node_def by auto

section \<open>Detaching, refilling and linking a frame\<close>

lemma in_frame_iff: "in_frame c frame a \<longleftrightarrow> (\<exists>i < PAGE_SIZE c. a = phys c frame i)"
proof
  assume "in_frame c frame a"
  then have "a - frame * PAGE_SIZE c < PAGE_SIZE c \<and> a = phys c frame (a - frame * PAGE_SIZE c)"
    by (simp add: in_frame_def phys_def)
  then show "\<exists>i < PAGE_SIZE c. a = phys c frame i" by blast
next
  assume "\<exists>i < PAGE_SIZE c. a = phys c frame i"
  then show "in_frame c frame a" by (auto simp: in_frame_def phys_def)
qed

lemma in_frame_phys:
  assumes "valid_config c" "f < NUM_FRAMES c" "g < NUM_FRAMES c" "r < PAGE_SIZE c"
  shows "in_frame c f (phys c g r) \<longleftrightarrow> f = g"
  using assms phys_inj [OF assms(1)] unfolding in_frame_iff by (metis (no_types, lifting))

lemma node_detach:
  assumes v: "valid_config c" and wf: "tree_wf c s"
    and p: "node c s p P" "node c s (p @ [r]) X" and cl: "childless c s (p @ [r]) X"
    and s': "ram s' = (ram s)(phys c P r := 0)"
  shows "node c s' ds f \<longleftrightarrow> node c s ds f \<and> ds \<noteq> p @ [r]"
proof (cases "prefix (p @ [r]) ds")
  case False
  have lp: "length p < TABLES_DEPTH c" and r: "r < PAGE_SIZE c"
    using p(2) by (auto simp: node_def vpath_snoc)
  show ?thesis using node_update_other [OF v wf p(1) lp r s' False] False by auto
next
  case True
  then obtain rest where ds: "ds = p @ r # rest" by (auto simp: prefix_def)
  have lp: "length p < TABLES_DEPTH c" and r: "r < PAGE_SIZE c"
    using p(2) by (auto simp: node_def vpath_snoc)
  have 1: "\<not> node c s' ds f"
    using descend_update_through [OF v wf p(1) lp r s', of rest] ds by (simp add: node_def)
  have 2: "\<not> node c s ds f" if "rest \<noteq> []"
  proof
    assume n: "node c s ds f"
    from that obtain d rest' where rest: "rest = d # rest'" by (cases rest) auto
    have "node c s ds f = node c s ((p @ [r, d]) @ rest') f" using ds rest by simp
    then obtain g where "node c s (p @ [r, d]) g"
      using n node_prefix [of c s "p @ [r, d]" rest' f] by blast
    then have "node c s ((p @ [r]) @ [d]) g" by simp
    then obtain f' where f': "node c s (p @ [r]) f'" "length (p @ [r]) < TABLES_DEPTH c"
        "d < PAGE_SIZE c" "PMread (phys c f' d) s \<noteq> 0"
      unfolding node_snoc by blast
    have "f' = X" using f'(1) p(2) by (rule node_fun)
    then have "length (p @ [r]) < TABLES_DEPTH c \<and> d < PAGE_SIZE c \<and> PMread (phys c X d) s \<noteq> 0"
      using f' by simp
    then show False using cl by (auto simp: childless_def)
  qed
  show ?thesis using 1 2 ds by auto
qed

text \<open>Changing the content of a frame outside the tree does not change the tree.\<close>

lemma node_refill:
  assumes v: "valid_config c" and wf: "tree_wf c s"
    and X: "X < NUM_FRAMES c" "\<And>ds. \<not> node c s ds X"
    and s': "\<And>a. \<not> in_frame c X a \<Longrightarrow> ram s' a = ram s a"
  shows "node c s' ds f \<longleftrightarrow> node c s ds f"
proof (rule node_agree)
  fix ds f r
  assume n: "node c s ds f" and r: "r < PAGE_SIZE c"
  have "f \<noteq> X" using n X(2) by auto
  then have "\<not> in_frame c X (phys c f r)"
    using in_frame_phys [OF v X(1) tree_wf_range [OF wf n] r] by simp
  then show "ram s' (phys c f r) = ram s (phys c f r)" by (rule s')
qed

text \<open>Linking a frame from outside the tree under an empty entry adds one node.\<close>

lemma node_link:
  assumes v: "valid_config c" and wf: "tree_wf c s"
    and p: "node c s p F" "length p < TABLES_DEPTH c" "r < PAGE_SIZE c" "PMread (phys c F r) s = 0"
    and X: "X < NUM_FRAMES c" "X \<noteq> 0" "\<And>ds. \<not> node c s ds X"
    and z: "childless c s (p @ [r]) X"
    and s': "ram s' = (ram s)(phys c F r := ucast X)"
  shows "node c s' ds f \<longleftrightarrow> node c s ds f \<or> (ds = p @ [r] \<and> f = X)"
proof (cases "prefix (p @ [r]) ds")
  case False
  show ?thesis using node_update_other [OF v wf p(1-3) s' False] False by auto
next
  case True
  then obtain rest where ds: "ds = p @ r # rest" by (auto simp: prefix_def)
  have small: "unat X < 2 ^ 31"
    using X(1) v by (simp add: valid_config_def word_less_nat_alt)
  have nz: "(ucast X :: word_t) \<noteq> 0" using X(2) ucast_frame_eq_0 [OF small] by simp
  have d: "descend c s' 0 ds = descend c s' X rest"
    using descend_update_through [OF v wf p(1-3) s', of rest] ds nz frame_cast [OF small] by simp
  have old: "\<not> node c s ds f"
  proof
    assume "node c s ds f"
    then obtain g where "node c s (p @ [r]) g"
      using ds node_prefix [of c s "p @ [r]" rest f] by auto
    then show False using p by (auto simp: node_snoc dest: node_fun)
  qed
  show ?thesis
  proof (cases rest)
    case Nil
    have "vpath c (p @ [r])" using p by (auto simp: node_def vpath_snoc)
    then show ?thesis using d ds old Nil by (auto simp: node_def)
  next
    case (Cons d' rest')
    have "\<not> node c s' ds f"
    proof
      assume n: "node c s' ds f"
      then have "vpath c ds" by (simp add: node_def)
      then have len: "length (p @ [r]) < TABLES_DEPTH c" and d': "d' < PAGE_SIZE c"
        using ds Cons by (auto simp: vpath_def)
      have "F \<noteq> X" using p(1) X(3) by auto
      then have "phys c X d' \<noteq> phys c F r"
        using phys_inj [OF v X(1) d' tree_wf_range [OF wf p(1)] p(3)] by simp
      then have "PMread (phys c X d') s' = PMread (phys c X d') s"
        using s' by (simp add: PMread_def)
      also have "\<dots> = 0" using z len d' by (auto simp: childless_def)
      finally show False using n d ds Cons by (simp add: node_def)
    qed
    then show ?thesis using old ds Cons by auto
  qed
qed

section \<open>Effects of the memory operations\<close>

lemma ram_PMwrite [simp]: "ram (PMwrite a x s) = (ram s)(a := x)"
  by (simp add: PMwrite_def)

lemma swap_PMwrite [simp]: "swap (PMwrite a x s) = swap s"
  by (simp add: PMwrite_def)

lemma ram_PMevict [simp]: "ram (PMevict c f p s) = ram s"
  by (simp add: PMevict_def)

lemma swap_PMevict: "swap (PMevict c f p s) = (swap s)(p \<mapsto> (\<lambda>i. ram s (phys c f i)))"
  by (simp add: PMevict_def phys_def)

lemma swap_PMrestore [simp]: "swap (PMrestore c f p s) = swap s"
  by (simp add: PMrestore_def split: option.splits)

lemma ram_PMrestore_out: "\<not> in_frame c f a \<Longrightarrow> ram (PMrestore c f p s) a = ram s a"
  by (simp add: PMrestore_def in_frame_def split: option.splits)

lemma ram_PMrestore_in:
  "swap s p = Some pg \<Longrightarrow> ram (PMrestore c f p s) (phys c f i) = (if i < PAGE_SIZE c then pg i else ram s (phys c f i))"
  by (simp add: PMrestore_def phys_def)

lemma fold_PMwrite_zero:
  "ram (fold (\<lambda>i. PMwrite (phys c f i) 0) rs s) a
     = (if \<exists>i \<in> set rs. a = phys c f i then 0 else ram s a)"
  by (induction rs arbitrary: s) auto

lemma swap_fold_PMwrite [simp]: "swap (fold (\<lambda>i. PMwrite (phys c f i) x) rs s) = swap s"
  by (induction rs arbitrary: s) auto

lemma ram_clearFrame:
  "ram (clearFrame c f isLeaf s) a = (if \<not> isLeaf \<and> in_frame c f a then 0 else ram s a)"
  unfolding clearFrame_def in_frame_iff
  by (auto simp: fold_PMwrite_zero set_rows)

lemma swap_clearFrame [simp]: "swap (clearFrame c f isLeaf s) = swap s"
  by (simp add: clearFrame_def)

lemma PMread_clearFrame_in:
  "i < PAGE_SIZE c \<Longrightarrow> PMread (phys c f i) (clearFrame c f False s) = 0"
  using ram_clearFrame [of c f False s "phys c f i"] in_frame_iff [of c f "phys c f i"]
  by (auto simp: PMread_def)

section \<open>Keeping the tree well formed\<close>

lemma tree_inv_moved:
  assumes inv: "tree_inv c s"
    and ch: "\<And>ds f. node c s' ds f \<longleftrightarrow> (node c s ds f \<and> ds \<noteq> k) \<or> (ds = p \<and> f = X)"
    and k: "node c s k X" and p: "\<And>f. \<not> node c s p f"
  shows "tree_inv c s'"
proof -
  have wf: "tree_wf c s" using inv by (rule tree_inv_wf)
  have R: "f < NUM_FRAMES c" if "node c s' ds f" for ds f
    using that ch k tree_wf_range [OF wf] by blast
  have U: "ds = ds'" if "node c s' ds f" "node c s' ds' f" for ds ds' f
  proof -
    have a: "(node c s ds f \<and> ds \<noteq> k) \<or> (ds = p \<and> f = X)" using that(1) ch by blast
    have b: "(node c s ds' f \<and> ds' \<noteq> k) \<or> (ds' = p \<and> f = X)" using that(2) ch by blast
    have "\<not> (node c s ds'' X \<and> ds'' \<noteq> k)" for ds''
      using tree_wf_unique [OF wf _ k] by blast
    then show ?thesis using a b tree_wf_unique [OF wf] by blast
  qed
  have C: "\<exists>ds'. node c s' ds' g" if "node c s' ds f" "g \<le> f" for ds f g
  proof -
    have "(node c s ds f \<and> ds \<noteq> k) \<or> (ds = p \<and> f = X)" using that(1) ch by blast
    then have "\<exists>ds0. node c s ds0 f" using k by blast
    then obtain ds0 where "node c s ds0 f" ..
    then have "\<exists>ds1. node c s ds1 g" using that(2) by (rule tree_inv_closed [OF inv])
    then obtain ds1 where d: "node c s ds1 g" ..
    show ?thesis
    proof (cases "ds1 = k")
      case True
      then have "g = X" using d k node_fun by blast
      then have "node c s' p g" using ch [of p g] by blast
      then show ?thesis ..
    next
      case False
      then have "node c s' ds1 g" using d ch [of ds1 g] by blast
      then show ?thesis ..
    qed
  qed
  show ?thesis unfolding tree_inv_def tree_wf_def using R U C by blast
qed

lemma tree_inv_fresh:
  assumes inv: "tree_inv c s"
    and ch: "\<And>ds f. node c s' ds f \<longleftrightarrow> node c s ds f \<or> (ds = p \<and> f = X)"
    and X: "X < NUM_FRAMES c" "\<And>ds. \<not> node c s ds X" "\<And>g. g < X \<Longrightarrow> \<exists>ds. node c s ds g"
    and p: "\<And>f. \<not> node c s p f"
  shows "tree_inv c s'"
proof -
  have wf: "tree_wf c s" using inv by (rule tree_inv_wf)
  have R: "f < NUM_FRAMES c" if "node c s' ds f" for ds f
    using that ch X(1) tree_wf_range [OF wf] by blast
  have U: "ds = ds'" if "node c s' ds f" "node c s' ds' f" for ds ds' f
  proof -
    have a: "node c s ds f \<or> (ds = p \<and> f = X)" using that(1) ch by blast
    have b: "node c s ds' f \<or> (ds' = p \<and> f = X)" using that(2) ch by blast
    show ?thesis using a b X(2) tree_wf_unique [OF wf] by blast
  qed
  have C: "\<exists>ds'. node c s' ds' g" if n: "node c s' ds f" and le: "g \<le> f" for ds f g
  proof (cases "node c s ds f")
    case True
    then obtain ds1 where "node c s ds1 g" using tree_inv_closed [OF inv True le] by blast
    then have "node c s' ds1 g" using ch [of ds1 g] by blast
    then show ?thesis ..
  next
    case False
    then have "f = X" using n ch [of ds f] by blast
    then have "g = X \<or> g < X" using le by auto
    then show ?thesis
    proof
      assume "g = X"
      then have "node c s' p g" using ch [of p g] by blast
      then show ?thesis ..
    next
      assume "g < X"
      then obtain ds1 where "node c s ds1 g" using X(3) by blast
      then have "node c s' ds1 g" using ch [of ds1 g] by blast
      then show ?thesis ..
    qed
  qed
  show ?thesis unfolding tree_inv_def tree_wf_def using R U C by blast
qed

section \<open>The scan, case by case\<close>

lemma scan_rows_zero:
  "PMread (phys c frame row) s = 0 \<Longrightarrow>
   scan_rows c s frame depth pagePrefix targetPage parentFrame (row # rest) (allZero, info)
     = scan_rows c s frame depth pagePrefix targetPage parentFrame rest (allZero, info)"
  by simp

lemma scan_rows_table:
  "PMread (phys c frame row) s \<noteq> 0 \<Longrightarrow> depth + 1 < TABLES_DEPTH c \<Longrightarrow>
   scan_rows c s frame depth pagePrefix targetPage parentFrame (row # rest) (allZero, info)
     = scan_rows c s frame depth pagePrefix targetPage parentFrame rest
         (False, scan c s (scast (PMread (phys c frame row) s)) (depth + 1)
                   (push_bit (OFFSET_WIDTH c) pagePrefix OR row) targetPage parentFrame
                   (info\<lparr>maxFrame := max (maxFrame info) (scast (PMread (phys c frame row) s))\<rparr>))"
  by (simp add: Let_def)

lemma scan_rows_leaf:
  "PMread (phys c frame row) s \<noteq> 0 \<Longrightarrow> \<not> depth + 1 < TABLES_DEPTH c \<Longrightarrow>
   scan_rows c s frame depth pagePrefix targetPage parentFrame (row # rest) (allZero, info)
     = scan_rows c s frame depth pagePrefix targetPage parentFrame rest
         (False, scan_leaf c frame row (scast (PMread (phys c frame row) s))
                   (push_bit (OFFSET_WIDTH c) pagePrefix OR row) targetPage
                   (info\<lparr>maxFrame := max (maxFrame info) (scast (PMread (phys c frame row) s))\<rparr>))"
  by (simp add: Let_def)

lemma scan_unfold:
  "scan c s frame depth pagePrefix targetPage parentFrame info =
     scan_finish c s frame parentFrame
       (fst (scan_rows c s frame depth pagePrefix targetPage parentFrame (rows c) (True, info)))
       (snd (scan_rows c s frame depth pagePrefix targetPage parentFrame (rows c) (True, info)))"
  by (simp add: case_prod_beta)

lemmas scan_rows_Nil = scan_rows.simps(1)

declare scan.simps [simp del] scan_rows.simps [simp del]

lemma scan_induct [case_names scan Nil Zero Table Leaf]:
  assumes "\<And>c s frame depth pagePrefix targetPage parentFrame info.
      Q c s frame depth pagePrefix targetPage parentFrame (rows c) (True, info) \<Longrightarrow>
      P c s frame depth pagePrefix targetPage parentFrame info"
    and "\<And>c s frame depth pagePrefix targetPage parentFrame acc.
      Q c s frame depth pagePrefix targetPage parentFrame [] acc"
    and "\<And>c s frame depth pagePrefix targetPage parentFrame row rest allZero info.
      PMread (phys c frame row) s = 0 \<Longrightarrow>
      Q c s frame depth pagePrefix targetPage parentFrame rest (allZero, info) \<Longrightarrow>
      Q c s frame depth pagePrefix targetPage parentFrame (row # rest) (allZero, info)"
    and "\<And>c s frame depth pagePrefix targetPage parentFrame row rest allZero info.
      PMread (phys c frame row) s \<noteq> 0 \<Longrightarrow> depth + 1 < TABLES_DEPTH c \<Longrightarrow>
      P c s (scast (PMread (phys c frame row) s)) (depth + 1)
         (push_bit (OFFSET_WIDTH c) pagePrefix OR row) targetPage parentFrame
         (info\<lparr>maxFrame := max (maxFrame info) (scast (PMread (phys c frame row) s))\<rparr>) \<Longrightarrow>
      Q c s frame depth pagePrefix targetPage parentFrame rest
         (False, scan c s (scast (PMread (phys c frame row) s)) (depth + 1)
                   (push_bit (OFFSET_WIDTH c) pagePrefix OR row) targetPage parentFrame
                   (info\<lparr>maxFrame := max (maxFrame info) (scast (PMread (phys c frame row) s))\<rparr>)) \<Longrightarrow>
      Q c s frame depth pagePrefix targetPage parentFrame (row # rest) (allZero, info)"
    and "\<And>c s frame depth pagePrefix targetPage parentFrame row rest allZero info.
      PMread (phys c frame row) s \<noteq> 0 \<Longrightarrow> \<not> depth + 1 < TABLES_DEPTH c \<Longrightarrow>
      Q c s frame depth pagePrefix targetPage parentFrame rest
         (False, scan_leaf c frame row (scast (PMread (phys c frame row) s))
                   (push_bit (OFFSET_WIDTH c) pagePrefix OR row) targetPage
                   (info\<lparr>maxFrame := max (maxFrame info) (scast (PMread (phys c frame row) s))\<rparr>)) \<Longrightarrow>
      Q c s frame depth pagePrefix targetPage parentFrame (row # rest) (allZero, info)"
  shows "P c s frame depth pagePrefix targetPage parentFrame info"
    and "Q c s frame depth pagePrefix targetPage parentFrame rs acc"
proof (induction c s frame depth pagePrefix targetPage parentFrame info
    and c s frame depth pagePrefix targetPage parentFrame rs acc rule: scan_scan_rows.induct)
  case (1 c s frame depth pagePrefix targetPage parentFrame info)
  then show ?case by (rule assms(1))
next
  case (2 c s frame depth pagePrefix targetPage parentFrame acc)
  show ?case by (rule assms(2))
next
  case (3 c s frame depth pagePrefix targetPage parentFrame row rest allZero info)
  show ?case
  proof (cases "PMread (phys c frame row) s = 0")
    case True
    then show ?thesis using 3(1) by (intro assms(3)) auto
  next
    case False
    show ?thesis
    proof (cases "depth + 1 < TABLES_DEPTH c")
      case True
      show ?thesis using False True 3(2) [OF refl False refl refl True] 3(3) [OF refl False refl refl True]
        by (intro assms(4))
    next
      case F2: False
      show ?thesis using False F2 3(4) [OF refl False refl refl F2]
        by (intro assms(5))
    qed
  qed
qed

section \<open>The high-water mark\<close>

lemma is_max_of_empty [simp]: "is_max_of m0 {} m \<longleftrightarrow> m = m0"
  by (auto simp: is_max_of_def)

lemma is_max_of_single: "is_max_of m0 {x} (max m0 x)"
  by (auto simp: is_max_of_def max_def)

lemma is_max_of_trans:
  "is_max_of m0 S m1 \<Longrightarrow> is_max_of m1 T m2 \<Longrightarrow> is_max_of m0 (S \<union> T) m2"
  unfolding is_max_of_def by (metis Un_iff order_trans)

lemma below_rows_all: "below c s f n = below_rows c s f n (rows c)"
proof -
  have "g \<in> below c s f n \<longleftrightarrow> g \<in> below_rows c s f n (rows c)" for g
  proof
    assume "g \<in> below c s f n"
    then obtain ds where ds: "ds \<noteq> []" "length ds \<le> n" "\<forall>d \<in> set ds. d < PAGE_SIZE c"
      "descend c s f ds = Some g" by (auto simp: below_def)
    then obtain d ds' where e: "ds = d # ds'" by (cases ds) auto
    have "d \<in> set (rows c) \<and> length ds' < n \<and> (\<forall>x \<in> set ds'. x < PAGE_SIZE c)
            \<and> descend c s f (d # ds') = Some g"
      using ds e unfolding set_rows by auto
    then show "g \<in> below_rows c s f n (rows c)"
      unfolding below_rows_def by blast
  next
    assume "g \<in> below_rows c s f n (rows c)"
    then obtain d ds where "d < PAGE_SIZE c" "length ds < n" "\<forall>x \<in> set ds. x < PAGE_SIZE c"
      "descend c s f (d # ds) = Some g" unfolding below_rows_def set_rows by auto
    then show "g \<in> below c s f n"
      unfolding below_def by (intro CollectI exI [of _ "d # ds"]) auto
  qed
  then show ?thesis by blast
qed

lemma below_rows_Nil [simp]: "below_rows c s f n [] = {}"
  by (simp add: below_rows_def)

lemma below_rows_Cons_zero:
  "PMread (phys c f r) s = 0 \<Longrightarrow> below_rows c s f n (r # rs) = below_rows c s f n rs"
  by (auto simp: below_rows_def)

lemma below_0 [simp]: "below c s f 0 = {}"
  by (auto simp: below_def)

lemma below_rows_Cons:
  assumes "PMread (phys c f r) s \<noteq> 0" "0 < n"
  shows "below_rows c s f n (r # rs) =
           ({scast (PMread (phys c f r) s)} \<union> below c s (scast (PMread (phys c f r) s)) (n - 1))
           \<union> below_rows c s f n rs"
    (is "?L = ({?ch} \<union> ?B) \<union> ?R")
proof -
  have "g \<in> ?L \<longleftrightarrow> g \<in> ({?ch} \<union> ?B) \<union> ?R" for g
  proof
    assume "g \<in> ?L"
    then obtain d ds where d: "d = r \<or> d \<in> set rs" "length ds < n" "\<forall>x \<in> set ds. x < PAGE_SIZE c"
      "descend c s f (d # ds) = Some g" by (auto simp: below_rows_def)
    show "g \<in> ({?ch} \<union> ?B) \<union> ?R"
    proof (cases "d \<in> set rs")
      case True
      then show ?thesis using d by (auto simp: below_rows_def)
    next
      case False
      then have dr: "d = r" using d by simp
      then have e: "descend c s ?ch ds = Some g" using d(4) assms(1) by (simp add: Let_def)
      show ?thesis
      proof (cases ds)
        case Nil
        then show ?thesis using e by simp
      next
        case (Cons a list)
        then have "g \<in> ?B" unfolding below_def using d(2,3) e
          by (intro CollectI exI [of _ ds]) auto
        then show ?thesis by simp
      qed
    qed
  next
    assume "g \<in> ({?ch} \<union> ?B) \<union> ?R"
    then consider "g = ?ch" | "g \<in> ?B" | "g \<in> ?R" by blast
    then show "g \<in> ?L"
    proof cases
      case 1
      then show ?thesis unfolding below_rows_def using assms
        by (intro CollectI exI [of _ r] exI [of _ "[]"]) (simp add: Let_def)
    next
      case 2
      then obtain ds where "ds \<noteq> []" "length ds \<le> n - 1" "\<forall>d \<in> set ds. d < PAGE_SIZE c"
        "descend c s ?ch ds = Some g" by (auto simp: below_def)
      then show ?thesis unfolding below_rows_def using assms
        by (intro CollectI exI [of _ r] exI [of _ ds]) (auto simp: Let_def)
    next
      case 3
      then show ?thesis by (auto simp: below_rows_def)
    qed
  qed
  then show ?thesis by blast
qed

lemma maxFrame_scan_finish [simp]: "maxFrame (scan_finish c s frame pf az info) = maxFrame info"
  by (simp add: scan_finish_def Let_def split: option.splits)

lemma maxFrame_scan_leaf [simp]: "maxFrame (scan_leaf c frame row e np t info) = maxFrame info"
  by (simp add: scan_leaf_def Let_def)

lemma maxFrame_scan_gen:
  "depth < TABLES_DEPTH c \<longrightarrow>
     is_max_of (maxFrame info) (below c s frame (TABLES_DEPTH c - depth))
       (maxFrame (scan c s frame depth pagePrefix targetPage parentFrame info))"
  "depth < TABLES_DEPTH c \<longrightarrow>
     is_max_of (maxFrame (snd acc)) (below_rows c s frame (TABLES_DEPTH c - depth) rs)
       (maxFrame (snd (scan_rows c s frame depth pagePrefix targetPage parentFrame rs acc)))"
proof (induction c s frame depth pagePrefix targetPage parentFrame info
    and c s frame depth pagePrefix targetPage parentFrame rs acc rule: scan_induct)
  case (scan c s frame depth pagePrefix targetPage parentFrame info)
  then show ?case by (simp add: scan_unfold below_rows_all)
next
  case (Nil c s frame depth pagePrefix targetPage parentFrame acc)
  then show ?case by (simp add: scan_rows_Nil)
next
  case (Zero c s frame depth pagePrefix targetPage parentFrame row rest allZero info)
  then show ?case by (simp add: scan_rows_zero below_rows_Cons_zero)
next
  case (Table c s frame depth pagePrefix targetPage parentFrame row rest allZero info)
  let ?ch = "scast (PMread (phys c frame row) s) :: u64"
  show ?case
  proof
    assume d: "depth < TABLES_DEPTH c"
    have 1: "is_max_of (maxFrame info) {?ch} (max (maxFrame info) ?ch)"
      by (rule is_max_of_single)
    have 2: "is_max_of (max (maxFrame info) ?ch) (below c s ?ch (TABLES_DEPTH c - depth - 1))
       (maxFrame (scan c s ?ch (depth + 1) (push_bit (OFFSET_WIDTH c) pagePrefix OR row) targetPage parentFrame
          (info\<lparr>maxFrame := max (maxFrame info) ?ch\<rparr>)))"
      using Table.IH(1) Table.hyps(2) by simp
    have 3: "is_max_of (maxFrame (scan c s ?ch (depth + 1) (push_bit (OFFSET_WIDTH c) pagePrefix OR row) targetPage parentFrame
          (info\<lparr>maxFrame := max (maxFrame info) ?ch\<rparr>)))
        (below_rows c s frame (TABLES_DEPTH c - depth) rest)
        (maxFrame (snd (scan_rows c s frame depth pagePrefix targetPage parentFrame (row # rest) (allZero, info))))"
      using Table.IH(2) d Table.hyps by (simp add: scan_rows_table)
    have "is_max_of (maxFrame info)
        (({?ch} \<union> below c s ?ch (TABLES_DEPTH c - depth - 1)) \<union> below_rows c s frame (TABLES_DEPTH c - depth) rest)
        (maxFrame (snd (scan_rows c s frame depth pagePrefix targetPage parentFrame (row # rest) (allZero, info))))"
      by (rule is_max_of_trans [OF is_max_of_trans [OF 1 2] 3])
    then show "is_max_of (maxFrame (snd (allZero, info))) (below_rows c s frame (TABLES_DEPTH c - depth) (row # rest))
        (maxFrame (snd (scan_rows c s frame depth pagePrefix targetPage parentFrame (row # rest) (allZero, info))))"
      using below_rows_Cons [OF Table.hyps(1), of "TABLES_DEPTH c - depth" rest] d by simp
  qed
next
  case (Leaf c s frame depth pagePrefix targetPage parentFrame row rest allZero info)
  let ?ch = "scast (PMread (phys c frame row) s) :: u64"
  show ?case
  proof
    assume d: "depth < TABLES_DEPTH c"
    then have one: "TABLES_DEPTH c - depth = 1" using Leaf.hyps(2) by simp
    have 1: "is_max_of (maxFrame info) {?ch} (max (maxFrame info) ?ch)"
      by (rule is_max_of_single)
    have 3: "is_max_of (max (maxFrame info) ?ch)
        (below_rows c s frame (TABLES_DEPTH c - depth) rest)
        (maxFrame (snd (scan_rows c s frame depth pagePrefix targetPage parentFrame (row # rest) (allZero, info))))"
      using Leaf.IH d Leaf.hyps by (simp add: scan_rows_leaf)
    have "is_max_of (maxFrame info) ({?ch} \<union> below_rows c s frame (TABLES_DEPTH c - depth) rest)
        (maxFrame (snd (scan_rows c s frame depth pagePrefix targetPage parentFrame (row # rest) (allZero, info))))"
      by (rule is_max_of_trans [OF 1 3])
    then show "is_max_of (maxFrame (snd (allZero, info))) (below_rows c s frame (TABLES_DEPTH c - depth) (row # rest))
        (maxFrame (snd (scan_rows c s frame depth pagePrefix targetPage parentFrame (row # rest) (allZero, info))))"
      using below_rows_Cons [OF Leaf.hyps(1), of "TABLES_DEPTH c - depth" rest] one by simp
  qed
qed

text \<open>After the scan from the root, \<^verbatim>\<open>maxFrame\<close> is the greatest frame of the tree.\<close>

lemma node_below: "ds \<noteq> [] \<Longrightarrow> node c s ds g \<longleftrightarrow> g \<in> below c s 0 (TABLES_DEPTH c) \<and> node c s ds g"
  by (auto simp: below_def node_def vpath_def)

lemma below_root: "below c s 0 (TABLES_DEPTH c) = {g. \<exists>ds. ds \<noteq> [] \<and> node c s ds g}"
  by (auto simp: below_def node_def vpath_def)

lemma maxFrame_scan_root:
  assumes "0 < TABLES_DEPTH c"
  shows "(\<forall>ds g. node c s ds g \<longrightarrow> g \<le> maxFrame (scan c s 0 0 0 targetPage parentFrame scanInfo_init))
       \<and> (\<exists>ds. node c s ds (maxFrame (scan c s 0 0 0 targetPage parentFrame scanInfo_init)))"
proof -
  let ?m = "maxFrame (scan c s 0 0 0 targetPage parentFrame scanInfo_init)"
  have m: "is_max_of 0 {g. \<exists>ds. ds \<noteq> [] \<and> node c s ds g} ?m"
    using maxFrame_scan_gen(1) [of 0 c scanInfo_init s 0 0 targetPage parentFrame] assms
    by (simp add: below_root scanInfo_init_def)
  have 1: "g \<le> ?m" if "node c s ds g" for ds g
  proof (cases "ds = []")
    case True
    then show ?thesis using that by simp
  next
    case False
    then show ?thesis using that m unfolding is_max_of_def by blast
  qed
  have "?m = 0 \<or> (\<exists>ds. ds \<noteq> [] \<and> node c s ds ?m)"
    using m unfolding is_max_of_def by blast
  then have 2: "\<exists>ds. node c s ds ?m"
  proof
    assume "?m = 0"
    then have "node c s [] ?m" by simp
    then show ?thesis ..
  qed blast
  show ?thesis using 1 2 by blast
qed

section \<open>The mapped pages in depth-first order\<close>

lemma leaves_rows_zero:
  "PMread (phys c frame row) s = 0 \<Longrightarrow>
   leaves_rows c s frame depth pagePrefix (row # rest) = leaves_rows c s frame depth pagePrefix rest"
  by simp

lemma leaves_rows_table:
  "PMread (phys c frame row) s \<noteq> 0 \<Longrightarrow> depth + 1 < TABLES_DEPTH c \<Longrightarrow>
   leaves_rows c s frame depth pagePrefix (row # rest) =
     leaves c s (scast (PMread (phys c frame row) s)) (depth + 1)
       (push_bit (OFFSET_WIDTH c) pagePrefix OR row)
     @ leaves_rows c s frame depth pagePrefix rest"
  by (simp add: Let_def)

lemma leaves_rows_leaf:
  "PMread (phys c frame row) s \<noteq> 0 \<Longrightarrow> \<not> depth + 1 < TABLES_DEPTH c \<Longrightarrow>
   leaves_rows c s frame depth pagePrefix (row # rest) =
     \<lparr>leafPage = push_bit (OFFSET_WIDTH c) pagePrefix OR row,
      leafFrame = scast (PMread (phys c frame row) s), leafParent = frame, leafRow = row\<rparr>
     # leaves_rows c s frame depth pagePrefix rest"
  by (simp add: Let_def)

lemmas leaves_unfold = leaves.simps

lemmas leaves_rows_Nil = leaves_rows.simps(1)

declare leaves.simps [simp del] leaves_rows.simps [simp del]

subsection \<open>The victim is chosen by a left-to-right pass over the mapped pages\<close>

lemma vproj_scan_leaf:
  "vproj (scan_leaf c frame row e np t info)
     = vstep c t \<lparr>leafPage = np, leafFrame = e, leafParent = frame, leafRow = row\<rparr> (vproj info)"
  by (simp add: vproj_def scan_leaf_def vstep_def leaf_victim_def leaf_dist_def Let_def)

lemma vproj_maxFrame_update [simp]: "vproj (info\<lparr>maxFrame := x\<rparr>) = vproj info"
  by (simp add: vproj_def)

lemma vproj_scan_finish [simp]: "vproj (scan_finish c s frame pf az info) = vproj info"
  by (simp add: vproj_def scan_finish_def Let_def split: option.splits)

lemma vproj_scan_gen:
  "vproj (scan c s frame depth pagePrefix targetPage parentFrame info)
     = fold (vstep c targetPage) (leaves c s frame depth pagePrefix) (vproj info)"
  "vproj (snd (scan_rows c s frame depth pagePrefix targetPage parentFrame rs acc))
     = fold (vstep c targetPage) (leaves_rows c s frame depth pagePrefix rs) (vproj (snd acc))"
proof (induction c s frame depth pagePrefix targetPage parentFrame info
    and c s frame depth pagePrefix targetPage parentFrame rs acc rule: scan_induct)
  case (scan c s frame depth pagePrefix targetPage parentFrame info)
  then show ?case by (simp add: scan_unfold leaves_unfold)
next
  case (Nil c s frame depth pagePrefix targetPage parentFrame acc)
  then show ?case by (simp add: scan_rows_Nil leaves_rows_Nil)
next
  case (Zero c s frame depth pagePrefix targetPage parentFrame row rest allZero info)
  then show ?case by (simp add: scan_rows_zero leaves_rows_zero)
next
  case (Table c s frame depth pagePrefix targetPage parentFrame row rest allZero info)
  then show ?case by (simp add: scan_rows_table leaves_rows_table)
next
  case (Leaf c s frame depth pagePrefix targetPage parentFrame row rest allZero info)
  then show ?case by (simp add: scan_rows_leaf leaves_rows_leaf vproj_scan_leaf)
qed

text \<open>The pass keeps the first page of greatest distance, if any distance is positive.\<close>

lemma fold_vstep:
  "(if \<forall>x \<in> set L. leaf_dist c t x \<le> fst v0 then fold (vstep c t) L v0 = v0
    else \<exists>i < length L. fold (vstep c t) L v0 = leaf_victim c t (L ! i)
           \<and> fst v0 < leaf_dist c t (L ! i)
           \<and> (\<forall>j < length L. leaf_dist c t (L ! j) \<le> leaf_dist c t (L ! i))
           \<and> (\<forall>j < i. leaf_dist c t (L ! j) < leaf_dist c t (L ! i)))"
proof (induction L rule: rev_induct)
  case Nil
  then show ?case by simp
next
  case (snoc x L)
  let ?R = "fold (vstep c t) L v0"
  show ?case
  proof (cases "\<forall>y \<in> set L. leaf_dist c t y \<le> fst v0")
    case True
    then have R: "?R = v0" using snoc by simp
    show ?thesis
    proof (cases "leaf_dist c t x \<le> fst v0")
      case le: True
      then show ?thesis using True R by (auto simp: vstep_def)
    next
      case gt: False
      have inL: "leaf_dist c t (L ! j) \<le> fst v0" if "j < length L" for j
        using True that nth_mem by blast
      have lt: "leaf_dist c t (L ! j) < leaf_dist c t x" if "j < length L" for j
        using inL [OF that] gt by simp
      have "fold (vstep c t) (L @ [x]) v0 = leaf_victim c t ((L @ [x]) ! length L)"
        using gt R by (simp add: vstep_def not_le)
      moreover have "\<forall>j < length (L @ [x]). leaf_dist c t ((L @ [x]) ! j) \<le> leaf_dist c t x"
        using lt by (auto simp: nth_append less_Suc_eq intro: less_imp_le)
      moreover have "\<forall>j < length L. leaf_dist c t ((L @ [x]) ! j) < leaf_dist c t x"
        using lt by (auto simp: nth_append)
      ultimately show ?thesis using gt
        by (intro iffD2 [OF if_not_P]) (auto intro!: exI [of _ "length L"])
    qed
  next
    case False
    have "\<exists>i < length L. ?R = leaf_victim c t (L ! i)
           \<and> fst v0 < leaf_dist c t (L ! i)
           \<and> (\<forall>j < length L. leaf_dist c t (L ! j) \<le> leaf_dist c t (L ! i))
           \<and> (\<forall>j < i. leaf_dist c t (L ! j) < leaf_dist c t (L ! i))"
      using snoc.IH False by (simp only: if_False)
    then obtain i where i: "i < length L" "?R = leaf_victim c t (L ! i)"
      "fst v0 < leaf_dist c t (L ! i)"
      "\<forall>j < length L. leaf_dist c t (L ! j) \<le> leaf_dist c t (L ! i)"
      "\<forall>j < i. leaf_dist c t (L ! j) < leaf_dist c t (L ! i)"
      by blast
    have nall: "\<not> (\<forall>y \<in> set (L @ [x]). leaf_dist c t y \<le> fst v0)" using False by auto
    show ?thesis
    proof (cases "leaf_dist c t x > leaf_dist c t (L ! i)")
      case True
      have lt: "leaf_dist c t (L ! j) < leaf_dist c t x" if "j < length L" for j
        using i(4) that True by (meson le_less_trans)
      have "fold (vstep c t) (L @ [x]) v0 = leaf_victim c t ((L @ [x]) ! length L)"
        using True i(2) by (simp add: vstep_def leaf_victim_def)
      moreover have "\<forall>j < length (L @ [x]). leaf_dist c t ((L @ [x]) ! j) \<le> leaf_dist c t x"
        using lt by (auto simp: nth_append less_Suc_eq intro: less_imp_le)
      moreover have "\<forall>j < length L. leaf_dist c t ((L @ [x]) ! j) < leaf_dist c t x"
        using lt by (auto simp: nth_append)
      moreover have "fst v0 < leaf_dist c t x" using True i(3) by simp
      ultimately show ?thesis using nall
        by (intro iffD2 [OF if_not_P]) (auto intro!: exI [of _ "length L"])
    next
      case F: False
      have "fold (vstep c t) (L @ [x]) v0 = leaf_victim c t ((L @ [x]) ! i)"
        using F i(1,2) by (simp add: vstep_def leaf_victim_def nth_append)
      moreover have "\<forall>j < length (L @ [x]). leaf_dist c t ((L @ [x]) ! j) \<le> leaf_dist c t ((L @ [x]) ! i)"
        using F i(1,4) by (auto simp: nth_append less_Suc_eq not_less)
      moreover have "\<forall>j < i. leaf_dist c t ((L @ [x]) ! j) < leaf_dist c t ((L @ [x]) ! i)"
        using i(1,5) by (auto simp: nth_append)
      moreover have "fst v0 < leaf_dist c t ((L @ [x]) ! i)" using i(1,3) by (simp add: nth_append)
      ultimately show ?thesis using nall i(1)
        by (intro iffD2 [OF if_not_P]) (auto intro!: exI [of _ i])
    qed
  qed
qed

subsection \<open>The mapped pages are the paths of full length\<close>

lemma leaf_at_zero:
  "PMread (phys c frame row) s = 0 \<Longrightarrow> \<not> leaf_at c s frame pagePrefix (row # q) x"
  by (simp add: leaf_at_def)

lemma leaf_at_single:
  "PMread (phys c frame row) s \<noteq> 0 \<Longrightarrow>
   leaf_at c s frame pagePrefix [row] x \<longleftrightarrow>
     x = \<lparr>leafPage = push_bit (OFFSET_WIDTH c) pagePrefix OR row,
          leafFrame = scast (PMread (phys c frame row) s), leafParent = frame, leafRow = row\<rparr>"
  by (cases x) (auto simp: leaf_at_def page_from_def Let_def)

lemma leaf_at_Cons:
  "PMread (phys c frame row) s \<noteq> 0 \<Longrightarrow> q \<noteq> [] \<Longrightarrow>
   leaf_at c s frame pagePrefix (row # q) x \<longleftrightarrow>
     leaf_at c s (scast (PMread (phys c frame row) s)) (push_bit (OFFSET_WIDTH c) pagePrefix OR row) q x"
  by (simp add: leaf_at_def page_from_def Let_def)

lemma set_leaves_gen:
  "depth < TABLES_DEPTH c \<longrightarrow>
     set (leaves c s frame depth pagePrefix) =
       {x. \<exists>q. length q = TABLES_DEPTH c - depth \<and> (\<forall>d \<in> set q. d < PAGE_SIZE c)
              \<and> leaf_at c s frame pagePrefix q x}"
  "depth < TABLES_DEPTH c \<longrightarrow>
     set (leaves_rows c s frame depth pagePrefix rs) =
       {x. \<exists>r q. r \<in> set rs \<and> length q = TABLES_DEPTH c - depth - 1 \<and> (\<forall>d \<in> set q. d < PAGE_SIZE c)
              \<and> leaf_at c s frame pagePrefix (r # q) x}"
proof (induction c s frame depth pagePrefix "targetPage :: u64" "parentFrame :: u64" "info :: scanInfo"
    and c s frame depth pagePrefix "targetPage :: u64" "parentFrame :: u64" rs "acc :: bool \<times> scanInfo"
    rule: scan_induct)
  case (scan c s frame depth pagePrefix targetPage parentFrame info)
  show ?case
  proof
    assume d: "depth < TABLES_DEPTH c"
    have "(\<exists>q. length q = TABLES_DEPTH c - depth \<and> (\<forall>d \<in> set q. d < PAGE_SIZE c)
              \<and> leaf_at c s frame pagePrefix q x)
       \<longleftrightarrow> (\<exists>r q. r \<in> set (rows c) \<and> length q = TABLES_DEPTH c - depth - 1
              \<and> (\<forall>d \<in> set q. d < PAGE_SIZE c) \<and> leaf_at c s frame pagePrefix (r # q) x)" for x
    proof
      assume "\<exists>q. length q = TABLES_DEPTH c - depth \<and> (\<forall>d \<in> set q. d < PAGE_SIZE c)
              \<and> leaf_at c s frame pagePrefix q x"
      then obtain q where q: "length q = TABLES_DEPTH c - depth" "\<forall>d \<in> set q. d < PAGE_SIZE c"
        "leaf_at c s frame pagePrefix q x" by blast
      then obtain r q' where "q = r # q'" using d by (cases q) auto
      then show "\<exists>r q. r \<in> set (rows c) \<and> length q = TABLES_DEPTH c - depth - 1
              \<and> (\<forall>d \<in> set q. d < PAGE_SIZE c) \<and> leaf_at c s frame pagePrefix (r # q) x"
        using q unfolding set_rows by (intro exI [of _ r] exI [of _ q']) auto
    next
      assume "\<exists>r q. r \<in> set (rows c) \<and> length q = TABLES_DEPTH c - depth - 1
              \<and> (\<forall>d \<in> set q. d < PAGE_SIZE c) \<and> leaf_at c s frame pagePrefix (r # q) x"
      then obtain r q where "r < PAGE_SIZE c" "length q = TABLES_DEPTH c - depth - 1"
        "\<forall>d \<in> set q. d < PAGE_SIZE c" "leaf_at c s frame pagePrefix (r # q) x"
        unfolding set_rows by blast
      then show "\<exists>q. length q = TABLES_DEPTH c - depth \<and> (\<forall>d \<in> set q. d < PAGE_SIZE c)
              \<and> leaf_at c s frame pagePrefix q x"
        using d by (intro exI [of _ "r # q"]) auto
    qed
    then show "set (leaves c s frame depth pagePrefix) =
       {x. \<exists>q. length q = TABLES_DEPTH c - depth \<and> (\<forall>d \<in> set q. d < PAGE_SIZE c)
              \<and> leaf_at c s frame pagePrefix q x}"
      using scan d by (simp add: leaves_unfold)
  qed
next
  case (Nil c s frame depth pagePrefix targetPage parentFrame acc)
  then show ?case by (simp add: leaves_rows_Nil)
next
  case (Zero c s frame depth pagePrefix targetPage parentFrame row rest allZero info)
  then show ?case by (auto simp: leaves_rows_zero leaf_at_zero)
next
  case (Table c s frame depth pagePrefix targetPage parentFrame row rest allZero info)
  let ?ch = "scast (PMread (phys c frame row) s) :: u64"
  let ?np = "push_bit (OFFSET_WIDTH c) pagePrefix OR row"
  show ?case
  proof
    assume d: "depth < TABLES_DEPTH c"
    have 1: "set (leaves c s ?ch (depth + 1) ?np) =
       {x. \<exists>q. length q = TABLES_DEPTH c - depth - 1 \<and> (\<forall>d \<in> set q. d < PAGE_SIZE c)
              \<and> leaf_at c s frame pagePrefix (row # q) x}"
    proof -
      have "leaf_at c s ?ch ?np q x = leaf_at c s frame pagePrefix (row # q) x"
        if "length q = TABLES_DEPTH c - depth - 1" for q x
      proof -
        have "q \<noteq> []" using that Table.hyps(2) by auto
        then show ?thesis using leaf_at_Cons [OF Table.hyps(1)] by simp
      qed
      then show ?thesis using Table.IH(1) Table.hyps(2) by auto
    qed
    have 2: "set (leaves_rows c s frame depth pagePrefix rest) =
       {x. \<exists>r q. r \<in> set rest \<and> length q = TABLES_DEPTH c - depth - 1 \<and> (\<forall>d \<in> set q. d < PAGE_SIZE c)
              \<and> leaf_at c s frame pagePrefix (r # q) x}"
      using Table.IH(2) d by simp
    show "set (leaves_rows c s frame depth pagePrefix (row # rest)) =
       {x. \<exists>r q. r \<in> set (row # rest) \<and> length q = TABLES_DEPTH c - depth - 1 \<and> (\<forall>d \<in> set q. d < PAGE_SIZE c)
              \<and> leaf_at c s frame pagePrefix (r # q) x}"
      unfolding leaves_rows_table [OF Table.hyps] set_append 1 2 by auto
  qed
next
  case (Leaf c s frame depth pagePrefix targetPage parentFrame row rest allZero info)
  show ?case
  proof
    assume d: "depth < TABLES_DEPTH c"
    then have z: "TABLES_DEPTH c - depth - 1 = 0" using Leaf.hyps(2) by simp
    have 2: "set (leaves_rows c s frame depth pagePrefix rest) =
       {x. \<exists>r q. r \<in> set rest \<and> length q = TABLES_DEPTH c - depth - 1 \<and> (\<forall>d \<in> set q. d < PAGE_SIZE c)
              \<and> leaf_at c s frame pagePrefix (r # q) x}"
      using Leaf.IH d by simp
    show "set (leaves_rows c s frame depth pagePrefix (row # rest)) =
       {x. \<exists>r q. r \<in> set (row # rest) \<and> length q = TABLES_DEPTH c - depth - 1 \<and> (\<forall>d \<in> set q. d < PAGE_SIZE c)
              \<and> leaf_at c s frame pagePrefix (r # q) x}"
      unfolding leaves_rows_leaf [OF Leaf.hyps] list.set 2 z using leaf_at_single [OF Leaf.hyps(1)]
      by auto
  qed
qed

lemma vpath_butlast: "vpath c q \<Longrightarrow> vpath c (butlast q)"
  by (auto simp: vpath_def dest: in_set_butlastD)

lemma set_leaves_root:
  assumes "0 < TABLES_DEPTH c"
  shows "x \<in> set (leaves c s 0 0 0) \<longleftrightarrow>
     (\<exists>q. length q = TABLES_DEPTH c \<and> node c s (butlast q) (leafParent x) \<and> node c s q (leafFrame x)
          \<and> leafRow x = last q \<and> leafPage x = page_of c q)"
proof -
  have "(length q = TABLES_DEPTH c \<and> (\<forall>d \<in> set q. d < PAGE_SIZE c) \<and> leaf_at c s 0 0 q x)
      \<longleftrightarrow> (length q = TABLES_DEPTH c \<and> node c s (butlast q) (leafParent x) \<and> node c s q (leafFrame x)
          \<and> leafRow x = last q \<and> leafPage x = page_of c q)" for q
  proof (cases "length q = TABLES_DEPTH c \<and> (\<forall>d \<in> set q. d < PAGE_SIZE c)")
    case True
    then have v: "vpath c q" "q \<noteq> []" using assms by (auto simp: vpath_def)
    then show ?thesis using vpath_butlast [OF v(1)] True
      by (simp add: leaf_at_def node_def page_of_def)
  next
    case False
    then show ?thesis by (auto simp: node_def vpath_def)
  qed
  then show ?thesis
    using set_leaves_gen(1) [of 0 c s 0 0] assms by simp
qed

section \<open>The empty table found by the scan\<close>

lemma not_UINT64_MAX: "f < n \<Longrightarrow> f \<noteq> UINT64_MAX"
  unfolding UINT64_MAX_def by (metis word_order.extremum_strict)

lemma eproj_maxFrame_update [simp]: "eproj (info\<lparr>maxFrame := x\<rparr>) = eproj info"
  by (simp add: eproj_def)

lemma eproj_scan_leaf [simp]: "eproj (scan_leaf c frame row e np t info) = eproj info"
  by (simp add: eproj_def scan_leaf_def Let_def)

lemma resolved_cong: "eproj a = eproj b \<Longrightarrow> resolved c s pf a = resolved c s pf b"
  by (simp add: eproj_def resolved_def)

lemma sf_resolved:
  "emptyFrame info \<noteq> UINT64_MAX \<Longrightarrow> emptyParent info \<noteq> UINT64_MAX
     \<Longrightarrow> scan_finish c s frame pf az info = info"
  by (simp add: scan_finish_def)

lemma sf_none_keep:
  "emptyFrame info = UINT64_MAX \<Longrightarrow> \<not> (az \<and> frame \<noteq> 0 \<and> frame \<noteq> pf)
     \<Longrightarrow> scan_finish c s frame pf az info = info"
  by (auto simp: scan_finish_def)

lemma find_rows_None:
  "find P (rows c) = None \<longleftrightarrow> (\<forall>r < PAGE_SIZE c. \<not> P r)"
  by (auto simp: find_None_iff set_rows)

lemma sf_record:
  assumes "emptyFrame info = UINT64_MAX" "az" "frame \<noteq> 0" "frame \<noteq> pf" "frame \<noteq> UINT64_MAX"
    "empty_table c s frame"
  shows "scan_finish c s frame pf az info
           = info\<lparr>emptyFrame := frame, emptyParent := UINT64_MAX, emptyRowInParent := 0\<rparr>"
proof -
  have "find (\<lambda>row. scast (PMread (phys c frame row) s) = frame) (rows c) = None"
    using assms(3,6) unfolding find_rows_None empty_table_def by auto
  then show ?thesis using assms by (simp add: scan_finish_def)
qed

lemma sf_resolve:
  assumes "emptyFrame info \<noteq> UINT64_MAX" "emptyParent info = UINT64_MAX" "\<not> az"
    "find (\<lambda>row. scast (PMread (phys c frame row) s) = emptyFrame info) (rows c) = Some r"
  shows "scan_finish c s frame pf az info = info\<lparr>emptyParent := frame, emptyRowInParent := r\<rparr>"
  using assms by (simp add: scan_finish_def)

lemma sf_unresolved_keep:
  assumes "emptyFrame info \<noteq> UINT64_MAX" "emptyParent info = UINT64_MAX"
    "find (\<lambda>row. scast (PMread (phys c frame row) s) = emptyFrame info) (rows c) = None"
  shows "scan_finish c s frame pf az info = info"
  using assms by (simp add: scan_finish_def)

subsection \<open>A table found and resolved stays\<close>

lemma eproj_scan_resolved:
  "emptyFrame info \<noteq> UINT64_MAX \<and> emptyParent info \<noteq> UINT64_MAX \<longrightarrow>
     eproj (scan c s frame depth pagePrefix targetPage parentFrame info) = eproj info"
  "emptyFrame (snd acc) \<noteq> UINT64_MAX \<and> emptyParent (snd acc) \<noteq> UINT64_MAX \<longrightarrow>
     eproj (snd (scan_rows c s frame depth pagePrefix targetPage parentFrame rs acc)) = eproj (snd acc)"
proof (induction c s frame depth pagePrefix targetPage parentFrame info
    and c s frame depth pagePrefix targetPage parentFrame rs acc rule: scan_induct)
  case (scan c s frame depth pagePrefix targetPage parentFrame info)
  show ?case
  proof
    assume a: "emptyFrame info \<noteq> UINT64_MAX \<and> emptyParent info \<noteq> UINT64_MAX"
    let ?r = "scan_rows c s frame depth pagePrefix targetPage parentFrame (rows c) (True, info)"
    have e: "eproj (snd ?r) = eproj info" using scan a by simp
    then have "emptyFrame (snd ?r) \<noteq> UINT64_MAX" "emptyParent (snd ?r) \<noteq> UINT64_MAX"
      using a by (auto simp: eproj_def)
    then show "eproj (scan c s frame depth pagePrefix targetPage parentFrame info) = eproj info"
      using e by (simp add: scan_unfold sf_resolved)
  qed
next
  case (Nil c s frame depth pagePrefix targetPage parentFrame acc)
  then show ?case by (simp add: scan_rows_Nil)
next
  case (Zero c s frame depth pagePrefix targetPage parentFrame row rest allZero info)
  then show ?case by (simp add: scan_rows_zero)
next
  case (Table c s frame depth pagePrefix targetPage parentFrame row rest allZero info)
  show ?case
  proof
    assume a: "emptyFrame (snd (allZero, info)) \<noteq> UINT64_MAX \<and> emptyParent (snd (allZero, info)) \<noteq> UINT64_MAX"
    let ?i = "info\<lparr>maxFrame := max (maxFrame info) (scast (PMread (phys c frame row) s))\<rparr>"
    let ?S = "scan c s (scast (PMread (phys c frame row) s)) (depth + 1)
                   (push_bit (OFFSET_WIDTH c) pagePrefix OR row) targetPage parentFrame ?i"
    have 1: "eproj ?S = eproj info" using Table.IH(1) a by simp
    then have "emptyFrame ?S \<noteq> UINT64_MAX \<and> emptyParent ?S \<noteq> UINT64_MAX"
      using a by (auto simp: eproj_def)
    then have "eproj (snd (scan_rows c s frame depth pagePrefix targetPage parentFrame rest (False, ?S))) = eproj ?S"
      using Table.IH(2) by simp
    then show "eproj (snd (scan_rows c s frame depth pagePrefix targetPage parentFrame (row # rest) (allZero, info)))
        = eproj (snd (allZero, info))"
      using 1 by (simp add: scan_rows_table [OF Table.hyps])
  qed
next
  case (Leaf c s frame depth pagePrefix targetPage parentFrame row rest allZero info)
  show ?case
  proof
    assume a: "emptyFrame (snd (allZero, info)) \<noteq> UINT64_MAX \<and> emptyParent (snd (allZero, info)) \<noteq> UINT64_MAX"
    let ?i = "info\<lparr>maxFrame := max (maxFrame info) (scast (PMread (phys c frame row) s))\<rparr>"
    let ?S = "scan_leaf c frame row (scast (PMread (phys c frame row) s))
                   (push_bit (OFFSET_WIDTH c) pagePrefix OR row) targetPage ?i"
    have 1: "eproj ?S = eproj info" by simp
    then have "emptyFrame ?S \<noteq> UINT64_MAX \<and> emptyParent ?S \<noteq> UINT64_MAX"
      using a by (auto simp: eproj_def)
    then have "eproj (snd (scan_rows c s frame depth pagePrefix targetPage parentFrame rest (False, ?S))) = eproj ?S"
      using Leaf.IH by simp
    then show "eproj (snd (scan_rows c s frame depth pagePrefix targetPage parentFrame (row # rest) (allZero, info)))
        = eproj (snd (allZero, info))"
      using 1 by (simp add: scan_rows_leaf [OF Leaf.hyps])
  qed
qed

subsection \<open>A table found stays unresolved outside its parent\<close>

lemma pending_cong: "eproj a = eproj b \<Longrightarrow> pending c s k a = pending c s k b"
  by (simp add: eproj_def pending_def)

lemma pending_frame:
  assumes "valid_config c" "tree_wf c s" "pending c s k info"
  shows "emptyFrame info \<noteq> UINT64_MAX" "emptyFrame info \<noteq> 0"
proof -
  have n: "node c s k (emptyFrame info)" "k \<noteq> []" using assms(3) by (auto simp: pending_def)
  show "emptyFrame info \<noteq> UINT64_MAX"
    using tree_wf_range [OF assms(2) n(1)] by (rule not_UINT64_MAX)
  show "emptyFrame info \<noteq> 0" using node_frame_0 [OF assms(2)] n by auto
qed

lemma sf_pending_other:
  assumes v: "valid_config c" and wf: "tree_wf c s" and p: "pending c s k info"
    and n: "node c s p frame" "length p < TABLES_DEPTH c" and np: "butlast k \<noteq> p"
  shows "scan_finish c s frame pf az info = info"
proof -
  have "\<not> (scast (PMread (phys c frame r) s) = emptyFrame info)" if r: "r < PAGE_SIZE c" for r
  proof
    assume e: "scast (PMread (phys c frame r) s) = emptyFrame info"
    then have "PMread (phys c frame r) s \<noteq> 0" using pending_frame(2) [OF v wf p] by auto
    then have "node c s (p @ [r]) (emptyFrame info)" using n r e by (auto simp: node_snoc)
    moreover have "node c s k (emptyFrame info)" using p by (simp add: pending_def)
    ultimately have "k = p @ [r]" using tree_wf_unique [OF wf] by blast
    then show False using np by simp
  qed
  then have "find (\<lambda>row. scast (PMread (phys c frame row) s) = emptyFrame info) (rows c) = None"
    unfolding find_rows_None by blast
  then show ?thesis
    using sf_unresolved_keep pending_frame(1) [OF v wf p] p by (simp add: pending_def)
qed

lemma eproj_scan_pending:
  "valid_config c \<and> tree_wf c s \<and> depth < TABLES_DEPTH c \<and> length p = depth \<and> node c s p frame
     \<and> \<not> prefix p (butlast k) \<and> pending c s k info \<longrightarrow>
     eproj (scan c s frame depth pagePrefix targetPage parentFrame info) = eproj info"
  "valid_config c \<and> tree_wf c s \<and> depth < TABLES_DEPTH c \<and> length p = depth \<and> node c s p frame
     \<and> \<not> prefix p (butlast k) \<and> set rs \<subseteq> set (rows c) \<and> pending c s k (snd acc) \<longrightarrow>
     eproj (snd (scan_rows c s frame depth pagePrefix targetPage parentFrame rs acc)) = eproj (snd acc)"
proof (induction c s frame depth pagePrefix targetPage parentFrame info
    and c s frame depth pagePrefix targetPage parentFrame rs acc arbitrary: p and p rule: scan_induct)
  case (scan c s frame depth pagePrefix targetPage parentFrame info)
  show ?case
  proof
    assume a: "valid_config c \<and> tree_wf c s \<and> depth < TABLES_DEPTH c \<and> length p = depth \<and> node c s p frame
     \<and> \<not> prefix p (butlast k) \<and> pending c s k info"
    let ?r = "scan_rows c s frame depth pagePrefix targetPage parentFrame (rows c) (True, info)"
    have e: "eproj (snd ?r) = eproj info" using scan [of p] a by simp
    then have "pending c s k (snd ?r)" using a pending_cong by blast
    moreover have "butlast k \<noteq> p" using a by auto
    ultimately have "scan_finish c s frame parentFrame (fst ?r) (snd ?r) = snd ?r"
      using a by (intro sf_pending_other [where p = p and k = k]) auto
    then show "eproj (scan c s frame depth pagePrefix targetPage parentFrame info) = eproj info"
      using e by (simp add: scan_unfold)
  qed
next
  case (Nil c s frame depth pagePrefix targetPage parentFrame acc)
  then show ?case by (simp add: scan_rows_Nil)
next
  case (Zero c s frame depth pagePrefix targetPage parentFrame row rest allZero info)
  show ?case using Zero.IH [of p] Zero.hyps by (simp add: scan_rows_zero)
next
  case (Table c s frame depth pagePrefix targetPage parentFrame row rest allZero info)
  show ?case
  proof
    assume a: "valid_config c \<and> tree_wf c s \<and> depth < TABLES_DEPTH c \<and> length p = depth \<and> node c s p frame
     \<and> \<not> prefix p (butlast k) \<and> set (row # rest) \<subseteq> set (rows c) \<and> pending c s k (snd (allZero, info))"
    let ?ch = "scast (PMread (phys c frame row) s) :: u64"
    let ?i = "info\<lparr>maxFrame := max (maxFrame info) ?ch\<rparr>"
    let ?S = "scan c s ?ch (depth + 1) (push_bit (OFFSET_WIDTH c) pagePrefix OR row) targetPage parentFrame ?i"
    have row: "row < PAGE_SIZE c" using a by (auto simp: set_rows)
    have n: "node c s (p @ [row]) ?ch" using a row Table.hyps by (auto simp: node_snoc)
    have np: "\<not> prefix (p @ [row]) (butlast k)" using a by (auto simp: prefix_def)
    have pi: "pending c s k ?i" using a by (simp add: pending_def)
    have 1: "eproj ?S = eproj info"
      using Table.IH(1) [of "p @ [row]"] a n np pi Table.hyps by simp
    then have "pending c s k ?S" using a pending_cong [of ?S info] by simp
    then have "eproj (snd (scan_rows c s frame depth pagePrefix targetPage parentFrame rest (False, ?S))) = eproj ?S"
      using Table.IH(2) [of p] a by simp
    then show "eproj (snd (scan_rows c s frame depth pagePrefix targetPage parentFrame (row # rest) (allZero, info)))
        = eproj (snd (allZero, info))"
      using 1 by (simp add: scan_rows_table [OF Table.hyps])
  qed
next
  case (Leaf c s frame depth pagePrefix targetPage parentFrame row rest allZero info)
  show ?case
  proof
    assume a: "valid_config c \<and> tree_wf c s \<and> depth < TABLES_DEPTH c \<and> length p = depth \<and> node c s p frame
     \<and> \<not> prefix p (butlast k) \<and> set (row # rest) \<subseteq> set (rows c) \<and> pending c s k (snd (allZero, info))"
    let ?ch = "scast (PMread (phys c frame row) s) :: u64"
    let ?i = "info\<lparr>maxFrame := max (maxFrame info) ?ch\<rparr>"
    let ?S = "scan_leaf c frame row ?ch (push_bit (OFFSET_WIDTH c) pagePrefix OR row) targetPage ?i"
    have 1: "eproj ?S = eproj info" by simp
    then have "pending c s k ?S" using a pending_cong [of ?S info] by simp
    then have "eproj (snd (scan_rows c s frame depth pagePrefix targetPage parentFrame rest (False, ?S))) = eproj ?S"
      using Leaf.IH [of p] a by simp
    then show "eproj (snd (scan_rows c s frame depth pagePrefix targetPage parentFrame (row # rest) (allZero, info)))
        = eproj (snd (allZero, info))"
      using 1 by (simp add: scan_rows_leaf [OF Leaf.hyps])
  qed
qed

subsection \<open>The scan finds an empty table if there is one\<close>

lemma candidate_frame:
  assumes "tree_wf c s" "candidate c s pf ds f"
  shows "f \<noteq> UINT64_MAX" "node c s ds f"
  using assms tree_wf_range [OF assms(1)] not_UINT64_MAX unfolding candidate_def by blast+

lemma no_cand_under_zero:
  assumes "node c s p frame" "PMread (phys c frame row) s = 0"
  shows "no_cand_under c s pf (p @ [row])"
  unfolding no_cand_under_def
proof (intro allI impI notI)
  fix ds f assume "candidate c s pf ds f" "prefix (p @ [row]) ds"
  then obtain g where "node c s (p @ [row]) g"
    using node_prefixE unfolding candidate_def by blast
  then show False using assms by (auto simp: node_snoc dest: node_fun)
qed

lemma no_cand_under_deep:
  assumes "TABLES_DEPTH c \<le> length p"
  shows "no_cand_under c s pf p"
  unfolding no_cand_under_def candidate_def using assms
  by (auto dest!: prefix_length_le)

lemma rows_inv_zero:
  assumes "node c s p frame" "PMread (phys c frame row) s = 0" "rows_inv c s pf p frame X (az, info)"
  shows "rows_inv c s pf p frame (insert row X) (az, info)"
  using assms no_cand_under_zero [OF assms(1,2), of pf]
  unfolding rows_inv_def by auto

lemma rows_inv_leaf:
  assumes "PMread (phys c frame row) s \<noteq> 0" "TABLES_DEPTH c \<le> length p + 1"
    "rows_inv c s pf p frame X (az, info)" "eproj S = eproj info"
  shows "rows_inv c s pf p frame (insert row X) (False, S)"
proof -
  have e: "emptyFrame S = emptyFrame info" "emptyParent S = emptyParent info"
    "resolved c s pf S = resolved c s pf info"
    using assms(4) resolved_cong [OF assms(4)] by (auto simp: eproj_def)
  have "no_cand_under c s pf (p @ [row])" using assms(2) by (intro no_cand_under_deep) simp
  then show ?thesis using assms(1,3) unfolding rows_inv_def e fst_conv snd_conv by auto
qed

lemma rows_inv_table:
  assumes v: "valid_config c" and wf: "tree_wf c s"
    and nz: "PMread (phys c frame row) s \<noteq> 0"
    and inv: "rows_inv c s pf p frame X (az, info)"
    and a: "emptyFrame info = UINT64_MAX \<Longrightarrow>
              scan_post c s pf (p @ [row]) (scast (PMread (phys c frame row) s)) S"
    and b: "emptyFrame info \<noteq> UINT64_MAX \<Longrightarrow> eproj S = eproj info"
  shows "rows_inv c s pf p frame (insert row X) (False, S)"
proof (cases "emptyFrame info = UINT64_MAX")
  case True
  have nc: "\<forall>r \<in> X. no_cand_under c s pf (p @ [r])"
  proof -
    have "\<not> (\<exists>r \<in> X. emptyParent info = UINT64_MAX \<and> candidate c s pf (p @ [r]) (emptyFrame info))"
      using True candidate_frame(1) [OF wf] by blast
    then show ?thesis using inv True unfolding rows_inv_def by auto
  qed
  show ?thesis using a [OF True] nc nz unfolding rows_inv_def scan_post_def fst_conv snd_conv
    by auto
next
  case False
  have e: "emptyFrame S = emptyFrame info" "emptyParent S = emptyParent info"
    "resolved c s pf S = resolved c s pf info"
    using b [OF False] resolved_cong [OF b [OF False]] by (auto simp: eproj_def)
  show ?thesis using inv nz False unfolding rows_inv_def e fst_conv snd_conv by auto
qed

lemma scan_post_finish:
  assumes v: "valid_config c" and wf: "tree_wf c s"
    and n: "node c s p frame" "length p < TABLES_DEPTH c"
    and inv: "rows_inv c s pf p frame (set (rows c)) (az, info)"
  shows "scan_post c s pf p frame (scan_finish c s frame pf az info)"
proof -
  have az: "az \<longleftrightarrow> empty_table c s frame"
    using inv unfolding rows_inv_def empty_table_def set_rows by auto
  have fr: "frame \<noteq> UINT64_MAX" using tree_wf_range [OF wf n(1)] by (rule not_UINT64_MAX)
  consider (none) "emptyFrame info = UINT64_MAX" "\<forall>r < PAGE_SIZE c. no_cand_under c s pf (p @ [r])"
    | (res) "emptyFrame info \<noteq> UINT64_MAX" "emptyParent info \<noteq> UINT64_MAX" "resolved c s pf info"
    | (pend) r where "r < PAGE_SIZE c" "emptyParent info = UINT64_MAX"
        "candidate c s pf (p @ [r]) (emptyFrame info)"
    using inv unfolding rows_inv_def set_rows by auto
  then show ?thesis
  proof cases
    case none
    have below: "\<not> prefix p ds" if cd: "candidate c s pf ds f" and ne: "ds \<noteq> p" for ds f
    proof
      assume "prefix p ds"
      then obtain r rest where ds: "ds = p @ r # rest" using ne
        by (metis append_Nil2 list.exhaust prefix_def)
      have "vpath c ds" using cd by (simp add: candidate_def node_def)
      then have "r < PAGE_SIZE c" using ds by (simp add: vpath_def)
      then have "no_cand_under c s pf (p @ [r])" using none(2) by blast
      then show False using cd ds unfolding no_cand_under_def by (auto simp: prefix_def)
    qed
    show ?thesis
    proof (cases "az \<and> frame \<noteq> 0 \<and> frame \<noteq> pf")
      case True
      then have "scan_finish c s frame pf az info
           = info\<lparr>emptyFrame := frame, emptyParent := UINT64_MAX, emptyRowInParent := 0\<rparr>"
        using none(1) fr az by (intro sf_record) auto
      moreover have "candidate c s pf p frame"
        using True az n by (simp add: candidate_def)
      ultimately show ?thesis by (simp add: scan_post_def)
    next
      case False
      then have 1: "scan_finish c s frame pf az info = info" using none(1) by (rule sf_none_keep [rotated])
      have "\<not> candidate c s pf p f" for f
      proof
        assume cd: "candidate c s pf p f"
        then have "f = frame" using n(1) by (auto simp: candidate_def dest: node_fun)
        then show False using cd False az by (auto simp: candidate_def)
      qed
      then have "no_cand_under c s pf p" unfolding no_cand_under_def using below by blast
      then show ?thesis using 1 none(1) by (simp add: scan_post_def)
    qed
  next
    case res
    then show ?thesis by (simp add: sf_resolved scan_post_def)
  next
    case pend
    let ?E = "emptyFrame info"
    have E: "?E \<noteq> UINT64_MAX" "node c s (p @ [r]) ?E" using candidate_frame [OF wf pend(3)] by auto
    then have er: "PMread (phys c frame r) s \<noteq> 0" "?E = scast (PMread (phys c frame r) s)"
      using n(1) by (auto simp: node_snoc dest: node_fun)
    then have naz: "\<not> az" using az pend(1) by (auto simp: empty_table_def)
    have "find (\<lambda>row. scast (PMread (phys c frame row) s) = ?E) (rows c) \<noteq> None"
      unfolding find_rows_None using er pend(1) by auto
    then obtain r' where f: "find (\<lambda>row. scast (PMread (phys c frame row) s) = ?E) (rows c) = Some r'"
      by blast
    then have r': "r' < PAGE_SIZE c" "scast (PMread (phys c frame r') s) = ?E"
      by (auto simp: find_Some_iff set_rows dest: nth_mem)
    have "?E \<noteq> 0" using pend(3) by (simp add: candidate_def)
    then have "PMread (phys c frame r') s \<noteq> 0" using r'(2) by auto
    then have "node c s (p @ [r']) ?E" using n r' by (auto simp: node_snoc)
    then have "r' = r" using tree_wf_unique [OF wf _ E(2)] by auto
    then have "scan_finish c s frame pf az info = info\<lparr>emptyParent := frame, emptyRowInParent := r\<rparr>"
      using sf_resolve [OF E(1) pend(2) naz f] by simp
    moreover have "resolved c s pf (info\<lparr>emptyParent := frame, emptyRowInParent := r\<rparr>)"
      unfolding resolved_def using pend(3) n(1) by auto
    ultimately show ?thesis using E(1) fr by (simp add: scan_post_def)
  qed
qed

lemma scan_post_gen:
  "valid_config c \<and> tree_wf c s \<and> depth < TABLES_DEPTH c \<and> length p = depth \<and> node c s p frame
     \<and> emptyFrame info = UINT64_MAX \<longrightarrow>
     scan_post c s parentFrame p frame (scan c s frame depth pagePrefix targetPage parentFrame info)"
  "valid_config c \<and> tree_wf c s \<and> depth < TABLES_DEPTH c \<and> length p = depth \<and> node c s p frame
     \<and> set rs \<subseteq> set (rows c) \<and> rows_inv c s parentFrame p frame X acc \<longrightarrow>
     rows_inv c s parentFrame p frame (X \<union> set rs)
       (scan_rows c s frame depth pagePrefix targetPage parentFrame rs acc)"
proof (induction c s frame depth pagePrefix targetPage parentFrame info
    and c s frame depth pagePrefix targetPage parentFrame rs acc arbitrary: p and p X rule: scan_induct)
  case (scan c s frame depth pagePrefix targetPage parentFrame info)
  show ?case
  proof
    assume a: "valid_config c \<and> tree_wf c s \<and> depth < TABLES_DEPTH c \<and> length p = depth \<and> node c s p frame
     \<and> emptyFrame info = UINT64_MAX"
    let ?r = "scan_rows c s frame depth pagePrefix targetPage parentFrame (rows c) (True, info)"
    have "rows_inv c s parentFrame p frame {} (True, info)"
      using a by (simp add: rows_inv_def)
    then have "rows_inv c s parentFrame p frame (set (rows c)) (fst ?r, snd ?r)"
      using scan [of p "{}"] a by simp
    then have "scan_post c s parentFrame p frame (scan_finish c s frame parentFrame (fst ?r) (snd ?r))"
      using a by (intro scan_post_finish) auto
    then show "scan_post c s parentFrame p frame (scan c s frame depth pagePrefix targetPage parentFrame info)"
      by (simp add: scan_unfold)
  qed
next
  case (Nil c s frame depth pagePrefix targetPage parentFrame acc)
  then show ?case by (simp add: scan_rows_Nil)
next
  case (Zero c s frame depth pagePrefix targetPage parentFrame row rest allZero info)
  show ?case
  proof
    assume a: "valid_config c \<and> tree_wf c s \<and> depth < TABLES_DEPTH c \<and> length p = depth \<and> node c s p frame
     \<and> set (row # rest) \<subseteq> set (rows c) \<and> rows_inv c s parentFrame p frame X (allZero, info)"
    then have "rows_inv c s parentFrame p frame (insert row X) (allZero, info)"
      using Zero.hyps by (intro rows_inv_zero) auto
    then have "rows_inv c s parentFrame p frame (insert row X \<union> set rest)
       (scan_rows c s frame depth pagePrefix targetPage parentFrame rest (allZero, info))"
      using Zero.IH [of p "insert row X"] a by simp
    then show "rows_inv c s parentFrame p frame (X \<union> set (row # rest))
       (scan_rows c s frame depth pagePrefix targetPage parentFrame (row # rest) (allZero, info))"
      by (simp add: scan_rows_zero [OF Zero.hyps])
  qed
next
  case (Table c s frame depth pagePrefix targetPage parentFrame row rest allZero info)
  show ?case
  proof
    assume a: "valid_config c \<and> tree_wf c s \<and> depth < TABLES_DEPTH c \<and> length p = depth \<and> node c s p frame
     \<and> set (row # rest) \<subseteq> set (rows c) \<and> rows_inv c s parentFrame p frame X (allZero, info)"
    let ?ch = "scast (PMread (phys c frame row) s) :: u64"
    let ?i = "info\<lparr>maxFrame := max (maxFrame info) ?ch\<rparr>"
    let ?S = "scan c s ?ch (depth + 1) (push_bit (OFFSET_WIDTH c) pagePrefix OR row) targetPage parentFrame ?i"
    have v: "valid_config c" and wf: "tree_wf c s" using a by auto
    have row: "row < PAGE_SIZE c" using a by (auto simp: set_rows)
    have n: "node c s (p @ [row]) ?ch" using a row Table.hyps by (auto simp: node_snoc)
    have A: "scan_post c s parentFrame (p @ [row]) ?ch ?S" if "emptyFrame info = UINT64_MAX"
      using Table.IH(1) [of "p @ [row]"] a n that Table.hyps by simp
    have B: "eproj ?S = eproj info" if ne: "emptyFrame info \<noteq> UINT64_MAX"
    proof (cases "emptyParent info = UINT64_MAX")
      case False
      then show ?thesis using eproj_scan_resolved(1) [of ?i c s ?ch] ne by simp
    next
      case True
      then obtain r where r: "r \<in> X" "candidate c s parentFrame (p @ [r]) (emptyFrame info)"
        using a ne unfolding rows_inv_def by auto
      have pe: "pending c s (p @ [r]) ?i"
        using r True by (simp add: pending_def candidate_def)
      have "\<not> prefix (p @ [row]) (butlast (p @ [r]))" by (simp add: prefix_def)
      then show ?thesis
        using eproj_scan_pending(1) [of c s "depth + 1" "p @ [row]" ?ch "p @ [r]" ?i] pe n v wf a Table.hyps
        by simp
    qed
    have inv: "rows_inv c s parentFrame p frame X (allZero, info)" using a by simp
    have "rows_inv c s parentFrame p frame (insert row X) (False, ?S)"
      by (rule rows_inv_table [OF v wf Table.hyps(1) inv A B])
    then have "rows_inv c s parentFrame p frame (insert row X \<union> set rest)
       (scan_rows c s frame depth pagePrefix targetPage parentFrame rest (False, ?S))"
      using Table.IH(2) [of p "insert row X"] a by simp
    then show "rows_inv c s parentFrame p frame (X \<union> set (row # rest))
       (scan_rows c s frame depth pagePrefix targetPage parentFrame (row # rest) (allZero, info))"
      by (simp add: scan_rows_table [OF Table.hyps])
  qed
next
  case (Leaf c s frame depth pagePrefix targetPage parentFrame row rest allZero info)
  show ?case
  proof
    assume a: "valid_config c \<and> tree_wf c s \<and> depth < TABLES_DEPTH c \<and> length p = depth \<and> node c s p frame
     \<and> set (row # rest) \<subseteq> set (rows c) \<and> rows_inv c s parentFrame p frame X (allZero, info)"
    let ?ch = "scast (PMread (phys c frame row) s) :: u64"
    let ?i = "info\<lparr>maxFrame := max (maxFrame info) ?ch\<rparr>"
    let ?S = "scan_leaf c frame row ?ch (push_bit (OFFSET_WIDTH c) pagePrefix OR row) targetPage ?i"
    have "rows_inv c s parentFrame p frame (insert row X) (False, ?S)"
      using a Leaf.hyps by (intro rows_inv_leaf [where info = info and az = allZero]) auto
    then have "rows_inv c s parentFrame p frame (insert row X \<union> set rest)
       (scan_rows c s frame depth pagePrefix targetPage parentFrame rest (False, ?S))"
      using Leaf.IH [of p "insert row X"] a by simp
    then show "rows_inv c s parentFrame p frame (X \<union> set (row # rest))
       (scan_rows c s frame depth pagePrefix targetPage parentFrame (row # rest) (allZero, info))"
      by (simp add: scan_rows_leaf [OF Leaf.hyps])
  qed
qed

text \<open>The result of the scan from the root, for the allocator.\<close>

lemma scan_root_empty:
  assumes v: "valid_config c" and wf: "tree_wf c s"
  shows "(emptyFrame (scan c s 0 0 0 t pf scanInfo_init) = UINT64_MAX \<and> (\<forall>ds f. \<not> candidate c s pf ds f))
       \<or> (emptyFrame (scan c s 0 0 0 t pf scanInfo_init) \<noteq> UINT64_MAX
           \<and> resolved c s pf (scan c s 0 0 0 t pf scanInfo_init))"
proof -
  let ?R = "scan c s 0 0 0 t pf scanInfo_init"
  have d: "0 < TABLES_DEPTH c" using v by (simp add: valid_config_def)
  have "scan_post c s pf [] 0 ?R"
    using scan_post_gen(1) [of c s 0 "[]" 0 scanInfo_init pf 0 t] v wf d
    by (simp add: scanInfo_init_def)
  then show ?thesis
    unfolding scan_post_def no_cand_under_def by (auto simp: candidate_def)
qed

section \<open>Page numbers and their digits\<close>

lemma PAGE_SIZE_mask: "PAGE_SIZE c - 1 = mask (OFFSET_WIDTH c)"
  by (simp add: PAGE_SIZE_def mask_eq_exp_minus_1)

lemma digit_bits:
  assumes "valid_config c" "d < PAGE_SIZE c" "bit d k"
  shows "k < OFFSET_WIDTH c"
proof -
  have "d AND mask (OFFSET_WIDTH c) = d"
    using assms(2) unfolding PAGE_SIZE_def by (rule less_mask_eq)
  then have "bit (d AND mask (OFFSET_WIDTH c)) k" using assms(3) by simp
  then show ?thesis by (simp add: bit_and_iff bit_mask_iff)
qed

lemma and_mask_less_PAGE_SIZE:
  assumes "valid_config c"
  shows "x AND (PAGE_SIZE c - 1) < PAGE_SIZE c"
proof -
  have "x AND mask (OFFSET_WIDTH c) < 2 ^ OFFSET_WIDTH c"
    using valid_config_W [OF assms] by (intro and_mask_less_size) (simp add: word_size)
  then show ?thesis by (simp add: mask_eq_exp_minus_1 PAGE_SIZE_def)
qed

lemma indexAtLevel_less: "valid_config c \<Longrightarrow> indexAtLevel c va level < PAGE_SIZE c"
  by (simp add: indexAtLevel_def Let_def and_mask_less_PAGE_SIZE)

lemma offsetOf_less: "valid_config c \<Longrightarrow> offsetOf c va < PAGE_SIZE c"
  by (simp add: offsetOf_def and_mask_less_PAGE_SIZE)

lemma length_digits [simp]: "length (digits c va) = TABLES_DEPTH c"
  by (simp add: digits_def)

lemma vpath_digits: "valid_config c \<Longrightarrow> vpath c (digits c va)"
  by (auto simp: vpath_def digits_def indexAtLevel_less)

lemma page_from_snoc:
  "page_from c x (ds @ [d]) = push_bit (OFFSET_WIDTH c) (page_from c x ds) OR d"
  by (simp add: page_from_def)

lemma bit_page_of:
  assumes v: "valid_config c"
  shows "(\<forall>d \<in> set ds. d < PAGE_SIZE c) \<Longrightarrow>
     bit (page_of c ds) k \<longleftrightarrow>
       k < 64 \<and> k < length ds * OFFSET_WIDTH c
       \<and> bit (ds ! (length ds - 1 - k div OFFSET_WIDTH c)) (k mod OFFSET_WIDTH c)"
proof (induction ds arbitrary: k rule: rev_induct)
  case Nil
  then show ?case by (simp add: page_of_def page_from_def)
next
  case (snoc d ds)
  let ?W = "OFFSET_WIDTH c"
  have W: "0 < ?W" using v by (simp add: valid_config_def)
  have d: "d < PAGE_SIZE c" and ds: "\<forall>d \<in> set ds. d < PAGE_SIZE c" using snoc.prems by auto
  have IH: "bit (page_of c ds) j \<longleftrightarrow>
       j < 64 \<and> j < length ds * ?W \<and> bit (ds ! (length ds - 1 - j div ?W)) (j mod ?W)" for j
    using snoc.IH [OF ds] .
  have e: "bit (page_of c (ds @ [d])) k \<longleftrightarrow> (?W \<le> k \<and> k < 64 \<and> bit (page_of c ds) (k - ?W)) \<or> bit d k"
    by (auto simp: page_of_def page_from_snoc bit_or_iff bit_push_bit_iff)
  show ?case
  proof (cases "k < ?W")
    case True
    have "bit d k \<Longrightarrow> k < 64" using bit_imp_le_length [of d k] by simp
    then show ?thesis using True e W by (auto simp: nth_append)
  next
    case False
    then have k: "?W \<le> k" by simp
    have nd: "\<not> bit d k" using digit_bits [OF v d] False by blast
    have dv: "(k - ?W) div ?W = k div ?W - 1" "(k - ?W) mod ?W = k mod ?W"
      using k W le_div_geq [of ?W k] le_mod_geq [of ?W k] by simp_all
    have k1: "1 \<le> k div ?W" using k W by (simp add: div_greater_zero_iff Suc_leI)
    have lt: "k - ?W < length ds * ?W \<longleftrightarrow> k < (length ds + 1) * ?W" using k by auto
    have idx: "length ds - 1 - (k div ?W - 1) = length ds - k div ?W" using k1 by simp
    have nth: "(ds @ [d]) ! (length ds - k div ?W) = ds ! (length ds - k div ?W)"
      if "k < (length ds + 1) * ?W"
    proof -
      have "length ds - k div ?W < length ds"
      proof -
        have "k div ?W < length ds + 1" using that W by (simp add: less_mult_imp_div_less)
        then show ?thesis using k1 by linarith
      qed
      then show ?thesis by (simp add: nth_append)
    qed
    show ?thesis using e nd k IH [of "k - ?W"] dv lt idx nth by auto
  qed
qed

lemma digit_of_page:
  assumes v: "valid_config c" and ds: "\<forall>d \<in> set ds. d < PAGE_SIZE c"
    and i: "i < length ds" and len: "length ds * OFFSET_WIDTH c \<le> 64"
  shows "drop_bit (OFFSET_WIDTH c * (length ds - 1 - i)) (page_of c ds) AND (PAGE_SIZE c - 1) = ds ! i"
proof (rule bit_word_eqI)
  fix j assume "j < LENGTH(64)"
  let ?W = "OFFSET_WIDTH c"
  let ?m = "length ds - 1 - i"
  have W: "0 < ?W" using v by (simp add: valid_config_def)
  have di: "ds ! i < PAGE_SIZE c" using ds i by simp
  have small: "bit (ds ! i) j \<Longrightarrow> j < ?W" using digit_bits [OF v di] by blast
  have dm: "(j + ?W * ?m) div ?W = ?m" "(j + ?W * ?m) mod ?W = j" if "j < ?W"
    using that by simp_all
  have idx: "length ds - 1 - ?m = i" using i by simp
  have b1: "j + ?W * ?m < length ds * ?W" if "j < ?W"
  proof -
    have "?m + 1 \<le> length ds" using i by simp
    then have "?W * (?m + 1) \<le> ?W * length ds" by (rule mult_le_mono2)
    then show ?thesis using that by (simp add: algebra_simps)
  qed
  have b2: "j + ?W * ?m < 64" if "j < ?W" using b1 [OF that] len by simp
  show "bit (drop_bit (?W * ?m) (page_of c ds) AND (PAGE_SIZE c - 1)) j = bit (ds ! i) j"
  proof (cases "j < ?W")
    case True
    have "bit (drop_bit (?W * ?m) (page_of c ds) AND (PAGE_SIZE c - 1)) j
            = bit (page_of c ds) (?W * ?m + j)"
      using True \<open>j < LENGTH(64)\<close>
      by (simp add: PAGE_SIZE_mask bit_and_iff bit_mask_iff bit_drop_bit_eq)
    also have "\<dots> = bit (ds ! i) j"
      using bit_page_of [OF v ds, of "j + ?W * ?m"] dm [OF True] idx b1 [OF True] b2 [OF True]
      by (simp add: add.commute)
    finally show ?thesis .
  next
    case False
    then show ?thesis using small by (auto simp: PAGE_SIZE_mask bit_and_iff bit_mask_iff)
  qed
qed

lemma page_of_inj:
  assumes v: "valid_config c" and a: "vpath c ds" "vpath c ds'" and l: "length ds = length ds'"
    and e: "page_of c ds = page_of c ds'"
  shows "ds = ds'"
proof (rule nth_equalityI [OF l])
  fix i assume i: "i < length ds"
  have len: "length ds * OFFSET_WIDTH c \<le> 64"
  proof -
    have "length ds \<le> TABLES_DEPTH c" using a(1) by (simp add: vpath_def)
    then have "length ds * OFFSET_WIDTH c \<le> TABLES_DEPTH c * OFFSET_WIDTH c"
      by (rule mult_le_mono1)
    then show ?thesis using valid_config_DW [OF v] by linarith
  qed
  have "ds ! i = drop_bit (OFFSET_WIDTH c * (length ds - 1 - i)) (page_of c ds) AND (PAGE_SIZE c - 1)"
    using digit_of_page [OF v _ i len] a(1) by (simp add: vpath_def)
  also have "\<dots> = ds' ! i"
    using digit_of_page [OF v, of ds' i] a(2) i l len e by (simp add: vpath_def)
  finally show "ds ! i = ds' ! i" .
qed

lemma page_of_less:
  assumes v: "valid_config c" and a: "vpath c ds" "length ds = TABLES_DEPTH c"
  shows "page_of c ds < NUM_PAGES c"
proof -
  let ?n = "TABLES_DEPTH c * OFFSET_WIDTH c"
  have n: "?n < 64" using valid_config_DW [OF v] by simp
  have "page_of c ds AND mask ?n = page_of c ds"
  proof (rule bit_word_eqI)
    fix k assume "k < LENGTH(64)"
    show "bit (page_of c ds AND mask ?n) k = bit (page_of c ds) k"
      using bit_page_of [OF v, of ds k] a by (auto simp: vpath_def bit_and_iff bit_mask_iff)
  qed
  moreover have "page_of c ds AND mask ?n < 2 ^ ?n"
    using n by (intro and_mask_less_size) (simp add: word_size)
  ultimately show ?thesis by (simp add: NUM_PAGES_def)
qed

lemma va_bits:
  assumes v: "valid_config c" and va: "va < VIRTUAL_MEMORY_SIZE c" and b: "bit va k"
  shows "k < (TABLES_DEPTH c + 1) * OFFSET_WIDTH c"
proof -
  let ?n = "(TABLES_DEPTH c + 1) * OFFSET_WIDTH c"
  have "VIRTUAL_MEMORY_SIZE c = 2 ^ ?n"
    by (simp add: VIRTUAL_MEMORY_SIZE_def NUM_PAGES_def PAGE_SIZE_def power_add [symmetric] algebra_simps)
  then have "va AND mask ?n = va" using va by (simp add: less_mask_eq)
  then have "bit (va AND mask ?n) k" using b by simp
  then show ?thesis by (simp add: bit_and_iff bit_mask_iff)
qed

lemma page_of_digits:
  assumes v: "valid_config c" and va: "va < VIRTUAL_MEMORY_SIZE c"
  shows "page_of c (digits c va) = drop_bit (OFFSET_WIDTH c) va"
proof (rule bit_word_eqI)
  fix k assume k64: "k < LENGTH(64)"
  let ?W = "OFFSET_WIDTH c" and ?D = "TABLES_DEPTH c"
  have W: "0 < ?W" using v by (simp add: valid_config_def)
  have dg: "\<forall>d \<in> set (digits c va). d < PAGE_SIZE c"
    using vpath_digits [OF v] by (simp add: vpath_def)
  show "bit (page_of c (digits c va)) k = bit (drop_bit ?W va) k"
  proof (cases "k < ?D * ?W")
    case True
    have kd: "k div ?W < ?D" using True W by (simp add: less_mult_imp_div_less)
    then have lv: "?D - 1 - k div ?W < ?D" by simp
    have "bit (page_of c (digits c va)) k
        = bit (indexAtLevel c va (?D - 1 - k div ?W)) (k mod ?W)"
      using bit_page_of [OF v dg, of k] True k64 lv by (simp add: digits_def)
    also have "\<dots> = bit va (?W + ?W * (?D - 1 - (?D - 1 - k div ?W)) + k mod ?W)"
      using W k64 le_less_trans [OF mod_less_eq_dividend [of k ?W]] by (simp add: indexAtLevel_def Let_def PAGE_SIZE_mask bit_and_iff bit_mask_iff bit_drop_bit_eq)
    also have "?W + ?W * (?D - 1 - (?D - 1 - k div ?W)) + k mod ?W = ?W + k"
    proof -
      have "?D - 1 - (?D - 1 - k div ?W) = k div ?W" using kd by simp
      then show ?thesis by (simp add: algebra_simps)
    qed
    also have "bit va (?W + k) = bit (drop_bit ?W va) k" by (simp add: bit_drop_bit_eq)
    finally show ?thesis .
  next
    case False
    have "\<not> bit (page_of c (digits c va)) k"
      using bit_page_of [OF v dg, of k] False by simp
    moreover have "\<not> bit (drop_bit ?W va) k"
    proof
      assume "bit (drop_bit ?W va) k"
      then have "bit va (?W + k)" by (simp add: bit_drop_bit_eq)
      then have "?W + k < (?D + 1) * ?W" by (rule va_bits [OF v va])
      then show False using False by (simp add: algebra_simps)
    qed
    ultimately show ?thesis by simp
  qed
qed

lemma va_decomp: "push_bit (OFFSET_WIDTH c) (drop_bit (OFFSET_WIDTH c) va) OR offsetOf c va = va"
  by (rule bit_word_eqI)
    (auto simp: offsetOf_def PAGE_SIZE_mask bit_or_iff bit_push_bit_iff bit_drop_bit_eq bit_and_iff bit_mask_iff)

lemma va_eqI:
  "drop_bit (OFFSET_WIDTH c) va = drop_bit (OFFSET_WIDTH c) va' \<Longrightarrow> offsetOf c va = offsetOf c va'
     \<Longrightarrow> va = va'"
  by (metis va_decomp)

lemma digits_eq_iff:
  assumes v: "valid_config c" and va: "va < VIRTUAL_MEMORY_SIZE c" "va' < VIRTUAL_MEMORY_SIZE c"
  shows "digits c va = digits c va' \<longleftrightarrow> drop_bit (OFFSET_WIDTH c) va = drop_bit (OFFSET_WIDTH c) va'"
proof
  assume "digits c va = digits c va'"
  then show "drop_bit (OFFSET_WIDTH c) va = drop_bit (OFFSET_WIDTH c) va'"
    using page_of_digits [OF v] va by metis
next
  assume "drop_bit (OFFSET_WIDTH c) va = drop_bit (OFFSET_WIDTH c) va'"
  then have "page_of c (digits c va) = page_of c (digits c va')"
    using page_of_digits [OF v] va by simp
  then show "digits c va = digits c va'"
    using page_of_inj [OF v vpath_digits [OF v] vpath_digits [OF v]] by simp
qed

lemma page_less:
  assumes v: "valid_config c" and va: "va < VIRTUAL_MEMORY_SIZE c"
  shows "drop_bit (OFFSET_WIDTH c) va < NUM_PAGES c"
  using page_of_less [OF v vpath_digits [OF v] length_digits, of va] page_of_digits [OF v va] by simp

lemma cyclicDistance_pos:
  assumes "a < NUM_PAGES c" "b < NUM_PAGES c" "a \<noteq> b"
  shows "0 < cyclicDistance c a b"
proof -
  have 1: "0 < NUM_PAGES c - d" if "d < NUM_PAGES c" for d
    using that by (simp add: word_neq_0_conv [symmetric])
  have 2: "a - b < NUM_PAGES c" if "b < a"
    using that assms(1) by (meson le_less_trans less_imp_le word_sub_le)
  have 3: "b - a < NUM_PAGES c" if "\<not> b < a"
    using that assms(2) by (meson le_less_trans not_less word_sub_le)
  show ?thesis
    unfolding cyclicDistance_def Let_def
    using assms(3) 1 2 3 by (auto simp: min_def word_neq_0_conv [symmetric])
qed

section \<open>A victim exists when the memory is full\<close>

lemma all_nodes_on_path:
  assumes wf: "tree_wf c s" and n: "node c s p F"
    and nc: "\<And>ds f. \<not> candidate c s F ds f"
    and nl: "\<And>q f. node c s q f \<Longrightarrow> length q \<noteq> TABLES_DEPTH c"
  shows "node c s ds f \<Longrightarrow> prefix ds p"
proof (induction "TABLES_DEPTH c - length ds" arbitrary: ds f rule: less_induct)
  case less
  show ?case
  proof (rule ccontr)
    assume np: "\<not> prefix ds p"
    have len: "length ds < TABLES_DEPTH c"
      using less.prems nl [OF less.prems] by (auto simp: node_def vpath_def)
    have "ds \<noteq> []" "ds \<noteq> p" using np by auto
    then have "f \<noteq> 0" "f \<noteq> F"
      using node_frame_0 [OF wf] tree_wf_unique [OF wf less.prems, of p] n less.prems by auto
    then have "\<not> empty_table c s f" using nc [of ds f] less.prems len by (simp add: candidate_def)
    then obtain r where r: "r < PAGE_SIZE c" "PMread (phys c f r) s \<noteq> 0"
      by (auto simp: empty_table_def)
    then have nn: "node c s (ds @ [r]) (scast (PMread (phys c f r) s))"
      using less.prems len by (auto simp: node_snoc)
    have "TABLES_DEPTH c - length (ds @ [r]) < TABLES_DEPTH c - length ds" using len by simp
    then have "prefix (ds @ [r]) p" using nn by (rule less.hyps)
    then show False using np by (auto simp: prefix_def)
  qed
qed

lemma prefix_same_length:
  "prefix xs zs \<Longrightarrow> prefix ys zs \<Longrightarrow> length xs = length ys \<Longrightarrow> xs = ys"
  by (auto simp: prefix_def append_eq_append_conv)

lemma frames_on_path_small:
  assumes inv: "tree_inv c s"
    and on: "\<And>ds f. node c s ds f \<Longrightarrow> prefix ds p"
    and M: "node c s dsM M"
  shows "unat M \<le> length p"
proof -
  define h where "h k = length (SOME ds. node c s ds (of_nat k :: u64))" for k :: nat
  have ex: "\<exists>ds. node c s ds (of_nat k :: u64)" if "k \<le> unat M" for k
  proof -
    have "unat (of_nat k :: u64) = k" using that by (rule le_unat_uoi)
    then have "(of_nat k :: u64) \<le> M" using that by (simp add: word_le_nat_alt)
    then show ?thesis using tree_inv_closed [OF inv M] by blast
  qed
  have nd: "node c s (SOME ds. node c s ds (of_nat k :: u64)) (of_nat k)" if "k \<le> unat M" for k
    using ex [OF that] by (rule someI_ex)
  have inj: "inj_on h {0 .. unat M}"
  proof (rule inj_onI)
    fix k k' assume k: "k \<in> {0 .. unat M}" "k' \<in> {0 .. unat M}" and e: "h k = h k'"
    let ?a = "SOME ds. node c s ds (of_nat k :: u64)"
    let ?b = "SOME ds. node c s ds (of_nat k' :: u64)"
    have a: "node c s ?a (of_nat k)" and b: "node c s ?b (of_nat k')" using nd k by auto
    have "?a = ?b" using on [OF a] on [OF b] e unfolding h_def by (rule prefix_same_length)
    then have "(of_nat k :: u64) = of_nat k'" using a b node_fun by metis
    moreover have "unat (of_nat k :: u64) = k" "unat (of_nat k' :: u64) = k'"
      using k by (auto intro: le_unat_uoi)
    ultimately show "k = k'" by metis
  qed
  have sub: "h ` {0 .. unat M} \<subseteq> {0 .. length p}"
  proof
    fix y assume "y \<in> h ` {0 .. unat M}"
    then obtain k where k: "k \<le> unat M" "y = h k" by auto
    have "prefix (SOME ds. node c s ds (of_nat k :: u64)) p" using on [OF nd [OF k(1)]] .
    then show "y \<in> {0 .. length p}" using k(2) unfolding h_def by (auto dest: prefix_length_le)
  qed
  have "card {0 .. unat M} \<le> card {0 .. length p}"
    using inj sub by (intro card_inj_on_le [of h]) auto
  then show ?thesis by simp
qed

lemma leaf_exists:
  assumes v: "valid_config c" and inv: "tree_inv c s"
    and n: "node c s p F" "length p < TABLES_DEPTH c"
    and nc: "\<And>ds f. \<not> candidate c s F ds f"
    and M: "node c s dsM M" "\<not> M + 1 < NUM_FRAMES c"
  shows "\<exists>q f. node c s q f \<and> length q = TABLES_DEPTH c"
proof (rule ccontr)
  assume "\<not> (\<exists>q f. node c s q f \<and> length q = TABLES_DEPTH c)"
  then have nl: "\<And>q f. node c s q f \<Longrightarrow> length q \<noteq> TABLES_DEPTH c" by blast
  have wf: "tree_wf c s" using inv by (rule tree_inv_wf)
  have on: "\<And>ds f. node c s ds f \<Longrightarrow> prefix ds p"
    using all_nodes_on_path [OF wf n(1) nc nl] .
  have "unat M \<le> length p" using frames_on_path_small [OF inv on M(1)] .
  then have small: "unat M + 1 < unat (NUM_FRAMES c)"
    using n(2) v by (simp add: valid_config_def)
  have "unat (NUM_FRAMES c) \<le> 2 ^ 31" using v by (simp add: valid_config_def)
  then have "unat M + unat (1::u64) < 2 ^ LENGTH(64)" using small by simp
  then have "unat (M + 1) = unat M + 1" by (simp add: unat_add_lem [THEN iffD1])
  then have "M + 1 < NUM_FRAMES c" using small by (simp add: word_less_nat_alt)
  then show False using M(2) by simp
qed

section \<open>The allocator, as the walker calls it\<close>

lemma fault_ctx_unmapped:
  assumes "fault_ctx c s p F row t"
  shows "\<not> node c s (p @ [row]) f"
  using assms unfolding fault_ctx_def by (auto simp: node_snoc dest: node_fun)

lemma fault_ctx_target:
  assumes ctx: "fault_ctx c s p F row t" and q: "node c s q f" "length q = TABLES_DEPTH c"
  shows "page_of c q \<noteq> t" "page_of c q < NUM_PAGES c" "t < NUM_PAGES c"
proof -
  have v: "valid_config c" using ctx by (simp add: fault_ctx_def)
  obtain q0 where q0: "vpath c q0" "length q0 = TABLES_DEPTH c" "prefix (p @ [row]) q0" "t = page_of c q0"
    using ctx unfolding fault_ctx_def by blast
  have vq: "vpath c q" using q(1) by (simp add: node_def)
  show "page_of c q < NUM_PAGES c" using page_of_less [OF v vq q(2)] .
  show "t < NUM_PAGES c" using page_of_less [OF v q0(1,2)] q0(4) by simp
  show "page_of c q \<noteq> t"
  proof
    assume "page_of c q = t"
    then have "q = q0" using page_of_inj [OF v vq q0(1)] q(2) q0(2,4) by simp
    then obtain g where "node c s (p @ [row]) g" using q(1) q0(3) node_prefixE by blast
    then show False using fault_ctx_unmapped [OF ctx] by blast
  qed
qed

lemma vproj_init: "vproj scanInfo_init = (0, UINT64_MAX, 0, 0, UINT64_MAX)"
  by (simp add: vproj_def scanInfo_init_def)

lemma alloc_reuse:
  assumes ctx: "fault_ctx c s p F row t"
    and e: "emptyFrame (scan c s 0 0 0 t F scanInfo_init) \<noteq> UINT64_MAX"
  shows "\<exists>kp r P X. candidate c s F (kp @ [r]) X \<and> node c s kp P
           \<and> allocateFrame c F row t isLeaf s
               = (X, clearFrame c X isLeaf (PMwrite (phys c P r) 0 s))"
proof -
  let ?info = "scan c s 0 0 0 t F scanInfo_init"
  have v: "valid_config c" and wf: "tree_wf c s"
    using ctx tree_inv_wf by (auto simp: fault_ctx_def)
  have "resolved c s F ?info" using scan_root_empty [OF v wf, of t F] e by blast
  then obtain kp r where k: "candidate c s F (kp @ [r]) (emptyFrame ?info)"
    "node c s kp (emptyParent ?info)" "emptyRowInParent ?info = r"
    unfolding resolved_def by blast
  have "emptyFrame ?info \<noteq> F" using k(1) by (simp add: candidate_def)
  then have "allocateFrame c F row t isLeaf s
      = (emptyFrame ?info, clearFrame c (emptyFrame ?info) isLeaf (PMwrite (phys c (emptyParent ?info) r) 0 s))"
    using e k(3) by (simp add: allocateFrame_def Let_def)
  then show ?thesis using k(1,2) by blast
qed

lemma alloc_no_candidate:
  assumes ctx: "fault_ctx c s p F row t"
    and e: "emptyFrame (scan c s 0 0 0 t F scanInfo_init) = UINT64_MAX"
  shows "\<not> candidate c s F ds f"
proof -
  have v: "valid_config c" and wf: "tree_wf c s"
    using ctx tree_inv_wf by (auto simp: fault_ctx_def)
  show ?thesis using scan_root_empty [OF v wf, of t F] e by blast
qed

lemma alloc_fresh:
  assumes ctx: "fault_ctx c s p F row t"
    and e: "emptyFrame (scan c s 0 0 0 t F scanInfo_init) = UINT64_MAX"
    and m: "maxFrame (scan c s 0 0 0 t F scanInfo_init) + 1 < NUM_FRAMES c"
  shows "\<exists>X. allocateFrame c F row t isLeaf s = (X, clearFrame c X isLeaf s)
           \<and> X = maxFrame (scan c s 0 0 0 t F scanInfo_init) + 1
           \<and> (\<forall>ds. \<not> node c s ds X) \<and> X < NUM_FRAMES c \<and> X \<noteq> 0
           \<and> (\<forall>g < X. \<exists>ds. node c s ds g)"
proof -
  let ?info = "scan c s 0 0 0 t F scanInfo_init"
  let ?M = "maxFrame ?info"
  have v: "valid_config c" and inv: "tree_inv c s"
    using ctx by (auto simp: fault_ctx_def)
  have wf: "tree_wf c s" using inv by (rule tree_inv_wf)
  have d: "0 < TABLES_DEPTH c" using v by (simp add: valid_config_def)
  have mx: "\<And>ds g. node c s ds g \<Longrightarrow> g \<le> ?M" and mn: "\<exists>ds. node c s ds ?M"
    using maxFrame_scan_root [OF d, of s t F] by blast+
  obtain dsM where dsM: "node c s dsM ?M" using mn by blast
  have Mlt: "?M < NUM_FRAMES c" using tree_wf_range [OF wf dsM] .
  have "unat ?M < unat (NUM_FRAMES c)" using Mlt by (simp add: word_less_nat_alt)
  moreover have "unat (NUM_FRAMES c) \<le> 2 ^ 31" using v by (simp add: valid_config_def)
  ultimately have "unat ?M + unat (1::u64) < 2 ^ LENGTH(64)" by simp
  then have u: "unat (?M + 1) = unat ?M + 1" by (simp add: unat_add_lem [THEN iffD1])
  then have gt: "?M < ?M + 1" by (simp add: word_less_nat_alt)
  have 1: "\<not> node c s ds (?M + 1)" for ds
    using mx [of ds "?M + 1"] gt by auto
  have 2: "?M + 1 \<noteq> 0" using gt by auto
  have 3: "\<exists>ds. node c s ds g" if "g < ?M + 1" for g
  proof -
    have "g \<le> ?M" using that u by (simp add: word_less_nat_alt word_le_nat_alt)
    then show ?thesis using tree_inv_closed [OF inv dsM] by blast
  qed
  have "allocateFrame c F row t isLeaf s = (?M + 1, clearFrame c (?M + 1) isLeaf s)"
    using e m by (simp add: allocateFrame_def Let_def)
  then show ?thesis using 1 2 3 m by blast
qed

lemma alloc_evict:
  assumes ctx: "fault_ctx c s p F row t"
    and e: "emptyFrame (scan c s 0 0 0 t F scanInfo_init) = UINT64_MAX"
    and m: "\<not> maxFrame (scan c s 0 0 0 t F scanInfo_init) + 1 < NUM_FRAMES c"
  shows "\<exists>i < length (leaves c s 0 0 0).
           allocateFrame c F row t isLeaf s
             = (leafFrame (leaves c s 0 0 0 ! i),
                clearFrame c (leafFrame (leaves c s 0 0 0 ! i)) isLeaf
                  (PMwrite (phys c (leafParent (leaves c s 0 0 0 ! i)) (leafRow (leaves c s 0 0 0 ! i))) 0
                     (PMevict c (leafFrame (leaves c s 0 0 0 ! i)) (leafPage (leaves c s 0 0 0 ! i)) s)))
           \<and> 0 < leaf_dist c t (leaves c s 0 0 0 ! i)
           \<and> (\<forall>j < length (leaves c s 0 0 0).
                 leaf_dist c t (leaves c s 0 0 0 ! j) \<le> leaf_dist c t (leaves c s 0 0 0 ! i))
           \<and> (\<forall>j < i. leaf_dist c t (leaves c s 0 0 0 ! j) < leaf_dist c t (leaves c s 0 0 0 ! i))"
proof -
  let ?info = "scan c s 0 0 0 t F scanInfo_init"
  let ?M = "maxFrame ?info"
  let ?L = "leaves c s 0 0 0"
  have v: "valid_config c" and inv: "tree_inv c s" and n: "node c s p F" "length p < TABLES_DEPTH c"
    using ctx by (auto simp: fault_ctx_def)
  have d: "0 < TABLES_DEPTH c" using v by (simp add: valid_config_def)
  obtain dsM where dsM: "node c s dsM ?M" using maxFrame_scan_root [OF d, of s t F] by blast
  have nc: "\<And>ds f. \<not> candidate c s F ds f" using alloc_no_candidate [OF ctx e] .
  obtain q f where q: "node c s q f" "length q = TABLES_DEPTH c"
    using leaf_exists [OF v inv n nc dsM m] by blast
  have "q \<noteq> []" using q(2) d by auto
  then obtain g where g: "node c s (butlast q) g"
    using node_prefix [of c s "butlast q" "[last q]" f] q(1) by auto
  define x where "x = \<lparr>leafPage = page_of c q, leafFrame = f, leafParent = g, leafRow = last q\<rparr>"
  have xin: "x \<in> set ?L"
    unfolding set_leaves_root [OF d] x_def using q g by auto
  have pos: "0 < leaf_dist c t y" if yin: "y \<in> set ?L" for y
  proof -
    obtain q' where q': "length q' = TABLES_DEPTH c" "node c s q' (leafFrame y)" "leafPage y = page_of c q'"
      using yin unfolding set_leaves_root [OF d] by blast
    show ?thesis unfolding leaf_dist_def q'(3)
      using fault_ctx_target [OF ctx q'(2,1)] by (intro cyclicDistance_pos) auto
  qed
  have "\<not> (\<forall>y \<in> set ?L. leaf_dist c t y \<le> fst (vproj scanInfo_init))"
    using pos [OF xin] xin unfolding vproj_init by (auto simp: not_le intro!: bexI [of _ x])
  then have "\<exists>i < length ?L. fold (vstep c t) ?L (vproj scanInfo_init) = leaf_victim c t (?L ! i)
           \<and> fst (vproj scanInfo_init) < leaf_dist c t (?L ! i)
           \<and> (\<forall>j < length ?L. leaf_dist c t (?L ! j) \<le> leaf_dist c t (?L ! i))
           \<and> (\<forall>j < i. leaf_dist c t (?L ! j) < leaf_dist c t (?L ! i))"
    using fold_vstep [of ?L c t "vproj scanInfo_init"] by (simp only: if_False)
  moreover have "vproj ?info = fold (vstep c t) ?L (vproj scanInfo_init)"
    by (rule vproj_scan_gen(1))
  ultimately obtain i where i: "i < length ?L" "vproj ?info = leaf_victim c t (?L ! i)"
      "0 < leaf_dist c t (?L ! i)"
      "\<forall>j < length ?L. leaf_dist c t (?L ! j) \<le> leaf_dist c t (?L ! i)"
      "\<forall>j < i. leaf_dist c t (?L ! j) < leaf_dist c t (?L ! i)"
    unfolding vproj_init by auto
  have vi: "victimFrame ?info = leafFrame (?L ! i)" "victimPage ?info = leafPage (?L ! i)"
    "victimRowInParent ?info = leafRow (?L ! i)" "victimParent ?info = leafParent (?L ! i)"
    using i(2) by (simp_all add: vproj_def leaf_victim_def)
  have "allocateFrame c F row t isLeaf s
             = (leafFrame (?L ! i),
                clearFrame c (leafFrame (?L ! i)) isLeaf
                  (PMwrite (phys c (leafParent (?L ! i)) (leafRow (?L ! i))) 0
                     (PMevict c (leafFrame (?L ! i)) (leafPage (?L ! i)) s)))"
    using e m vi by (simp add: allocateFrame_def Let_def)
  then show ?thesis using i by blast
qed

section \<open>One fault, resolved\<close>

lemma tree_wf_subset:
  assumes "tree_wf c s" "\<And>ds f. node c s' ds f \<Longrightarrow> node c s ds f"
  shows "tree_wf c s'"
  using assms unfolding tree_wf_def by blast

lemma relink_moved:
  assumes v: "valid_config c" and inv: "tree_inv c s"
    and n: "node c s p F" "length p < TABLES_DEPTH c" "row < PAGE_SIZE c" "PMread (phys c F row) s = 0"
    and k: "node c s (kp @ [r]) X" "node c s kp P" "childless c s (kp @ [r]) X" "X \<noteq> F"
    and s1: "ram (s1 :: pm_state) = (ram s)(phys c P r := 0)"
    and s2: "\<And>a. \<not> in_frame c X a \<Longrightarrow> ram (s2 :: pm_state) a = ram s1 a"
        "length p + 1 < TABLES_DEPTH c \<Longrightarrow> (\<forall>i < PAGE_SIZE c. ram s2 (phys c X i) = 0)"
    and s3: "ram s3 = (ram s2)(phys c F row := ucast X)"
  shows "node c s3 ds f \<longleftrightarrow> (node c s ds f \<and> ds \<noteq> kp @ [r]) \<or> (ds = p @ [row] \<and> f = X)"
proof -
  have wf: "tree_wf c s" using inv by (rule tree_inv_wf)
  have X: "X < NUM_FRAMES c" using tree_wf_range [OF wf k(1)] .
  have Fr: "F < NUM_FRAMES c" using tree_wf_range [OF wf n(1)] .
  have X0: "X \<noteq> 0" using node_frame_0 [OF wf] k(1) by auto
  have d1: "node c s1 ds f \<longleftrightarrow> node c s ds f \<and> ds \<noteq> kp @ [r]" for ds f
    using node_detach [OF v wf k(2,1,3) s1] .
  have wf1: "tree_wf c s1" by (rule tree_wf_subset [OF wf]) (simp add: d1)
  have nX1: "\<not> node c s1 ds X" for ds
    using d1 tree_wf_unique [OF wf _ k(1)] by blast
  have d2: "node c s2 ds f \<longleftrightarrow> node c s1 ds f" for ds f
    using node_refill [OF v wf1 X nX1 s2(1)] by blast
  have wf2: "tree_wf c s2" by (rule tree_wf_subset [OF wf1]) (simp add: d2)
  have pk: "p \<noteq> kp @ [r]" using k(1,4) n(1) node_fun by blast
  have n2: "node c s2 p F" using d2 d1 n(1) pk by blast
  have "\<not> in_frame c X (phys c F row)"
    using in_frame_phys [OF v X Fr n(3)] k(4) by simp
  then have "ram s2 (phys c F row) = ram s1 (phys c F row)" by (rule s2(1))
  also have "\<dots> = 0" using s1 n(4) by (simp add: PMread_def)
  finally have e2: "PMread (phys c F row) s2 = 0" by (simp add: PMread_def)
  have nX2: "\<not> node c s2 ds X" for ds using d2 nX1 by blast
  have cl: "childless c s2 (p @ [row]) X"
    using s2(2) n(2) unfolding childless_def by (auto simp: PMread_def)
  have "node c s3 ds f \<longleftrightarrow> node c s2 ds f \<or> (ds = p @ [row] \<and> f = X)"
    using node_link [OF v wf2 n2 n(2,3) e2 X X0 nX2 cl s3] .
  then show ?thesis using d2 d1 by blast
qed

lemma relink_fresh:
  assumes v: "valid_config c" and inv: "tree_inv c s"
    and n: "node c s p F" "length p < TABLES_DEPTH c" "row < PAGE_SIZE c" "PMread (phys c F row) s = 0"
    and X: "X < NUM_FRAMES c" "X \<noteq> 0" "\<And>ds. \<not> node c s ds X"
    and s2: "\<And>a. \<not> in_frame c X a \<Longrightarrow> ram (s2 :: pm_state) a = ram s a"
        "length p + 1 < TABLES_DEPTH c \<Longrightarrow> (\<forall>i < PAGE_SIZE c. ram s2 (phys c X i) = 0)"
    and s3: "ram s3 = (ram s2)(phys c F row := ucast X)"
  shows "node c s3 ds f \<longleftrightarrow> node c s ds f \<or> (ds = p @ [row] \<and> f = X)"
proof -
  have wf: "tree_wf c s" using inv by (rule tree_inv_wf)
  have Fr: "F < NUM_FRAMES c" using tree_wf_range [OF wf n(1)] .
  have d2: "node c s2 ds f \<longleftrightarrow> node c s ds f" for ds f
    using node_refill [OF v wf X(1,3) s2(1)] by blast
  have wf2: "tree_wf c s2" by (rule tree_wf_subset [OF wf]) (simp add: d2)
  have n2: "node c s2 p F" using d2 n(1) by blast
  have "X \<noteq> F" using X(3) n(1) by blast
  then have "\<not> in_frame c X (phys c F row)"
    using in_frame_phys [OF v X(1) Fr n(3)] by simp
  then have "ram s2 (phys c F row) = ram s (phys c F row)" by (rule s2(1))
  then have e2: "PMread (phys c F row) s2 = 0" using n(4) by (simp add: PMread_def)
  have nX2: "\<not> node c s2 ds X" for ds using d2 X(3) by blast
  have cl: "childless c s2 (p @ [row]) X"
    using s2(2) n(2) unfolding childless_def by (auto simp: PMread_def)
  have "node c s3 ds f \<longleftrightarrow> node c s2 ds f \<or> (ds = p @ [row] \<and> f = X)"
    using node_link [OF v wf2 n2 n(2,3) e2 X(1,2) nX2 cl s3] .
  then show ?thesis using d2 by blast
qed

lemma fault_post_tree_inv:
  assumes ctx: "fault_ctx c s p F row t" and post: "fault_post c s p row t X s3 K"
  shows "tree_inv c s3"
proof -
  have inv: "tree_inv c s" using ctx by (simp add: fault_ctx_def)
  have un: "\<And>f. \<not> node c s (p @ [row]) f" using fault_ctx_unmapped [OF ctx] .
  show ?thesis
  proof (cases K)
    case None
    have ch: "\<And>ds f. node c s3 ds f \<longleftrightarrow> node c s ds f \<or> (ds = p @ [row] \<and> f = X)"
      using post None unfolding fault_post_def by simp
    have X: "X < NUM_FRAMES c" "\<And>ds. \<not> node c s ds X" "\<And>g. g < X \<Longrightarrow> \<exists>ds. node c s ds g"
      using post None unfolding fault_post_def by auto
    show ?thesis using tree_inv_fresh [OF inv ch X un] .
  next
    case (Some k)
    have ch: "\<And>ds f. node c s3 ds f \<longleftrightarrow> (node c s ds f \<and> ds \<noteq> k) \<or> (ds = p @ [row] \<and> f = X)"
      using post Some unfolding fault_post_def by simp
    have k: "node c s k X" using post Some unfolding fault_post_def by simp
    show ?thesis using tree_inv_moved [OF inv ch k un] .
  qed
qed

lemma fault_post_linked:
  assumes "fault_post c s p row t X s3 K"
  shows "node c s3 (p @ [row]) X"
  using assms unfolding fault_post_def by blast

lemma leaf_frame_ne_table:
  assumes "tree_wf c s" "node c s q f" "length q = TABLES_DEPTH c" "node c s p F" "length p < TABLES_DEPTH c"
  shows "f \<noteq> F"
  using tree_wf_unique [OF assms(1,2), of p] assms(3-5) by auto

lemma after_alloc:
  assumes v: "valid_config c" and X: "X < NUM_FRAMES c" and Fr: "F < NUM_FRAMES c" "X \<noteq> F"
    and row: "row < PAGE_SIZE c"
    and s1: "s1 = clearFrame c X isLeaf A"
    and s2: "s2 = (if isLeaf then PMrestore c X t s1 else clearFrame c X False s1)"
    and s3: "s3 = PMwrite (phys c F row) (ucast X) s2"
  shows "\<And>a. \<not> in_frame c X a \<Longrightarrow> ram s2 a = ram A a"
    and "\<not> isLeaf \<Longrightarrow> (\<forall>i < PAGE_SIZE c. ram s2 (phys c X i) = 0)"
    and "ram s3 = (ram s2)(phys c F row := ucast X)"
    and "swap s3 = swap A"
    and "isLeaf \<Longrightarrow> (\<forall>pg off. swap s3 t = Some pg \<and> off < PAGE_SIZE c \<longrightarrow> ram s3 (phys c X off) = pg off)"
    and "\<And>a. \<not> in_frame c X a \<Longrightarrow> a \<noteq> phys c F row \<Longrightarrow> ram s3 a = ram A a"
proof -
  show out: "ram s2 a = ram A a" if "\<not> in_frame c X a" for a
    using that unfolding s2 s1 by (simp add: ram_clearFrame ram_PMrestore_out)
  show "\<not> isLeaf \<Longrightarrow> (\<forall>i < PAGE_SIZE c. ram s2 (phys c X i) = 0)"
    unfolding s2 using PMread_clearFrame_in [of _ c X] by (simp add: PMread_def)
  show r3: "ram s3 = (ram s2)(phys c F row := ucast X)" unfolding s3 by simp
  show sw: "swap s3 = swap A" unfolding s3 s2 s1 by simp
  show "isLeaf \<Longrightarrow> (\<forall>pg off. swap s3 t = Some pg \<and> off < PAGE_SIZE c \<longrightarrow> ram s3 (phys c X off) = pg off)"
  proof (intro allI impI)
    fix pg off assume l: "isLeaf" and a: "swap s3 t = Some pg \<and> off < PAGE_SIZE c"
    have "swap s1 t = Some pg" using a sw unfolding s1 by simp
    then have "ram s2 (phys c X off) = pg off"
      using l a unfolding s2 by (simp add: ram_PMrestore_in)
    moreover have "phys c X off \<noteq> phys c F row"
      using phys_inj [OF v X _ Fr(1) row, of off] a Fr(2) by simp
    ultimately show "ram s3 (phys c X off) = pg off" using r3 by simp
  qed
  show "ram s3 a = ram A a" if "\<not> in_frame c X a" "a \<noteq> phys c F row" for a
    using that out r3 by simp
qed

lemma fault_post_moved:
  assumes ctx: "fault_ctx c s p F row t"
    and k: "node c s (kp @ [r]) X" "node c s kp P" "childless c s (kp @ [r]) X" "X \<noteq> F"
    and A: "ram A = (ram s)(phys c P r := 0)"
      "swap A = (if length (kp @ [r]) = TABLES_DEPTH c
                 then (swap s)(page_of c (kp @ [r]) \<mapsto> (\<lambda>i. ram s (phys c X i))) else swap s)"
    and s1: "s1 = clearFrame c X (length p + 1 = TABLES_DEPTH c) A"
    and s2: "s2 = (if length p + 1 = TABLES_DEPTH c then PMrestore c X t s1 else clearFrame c X False s1)"
    and s3: "s3 = PMwrite (phys c F row) (ucast X) s2"
  shows "fault_post c s p row t X s3 (Some (kp @ [r]))"
proof -
  have v: "valid_config c" and inv: "tree_inv c s"
    and n: "node c s p F" "length p < TABLES_DEPTH c" "row < PAGE_SIZE c" "PMread (phys c F row) s = 0"
    using ctx by (auto simp: fault_ctx_def)
  have wf: "tree_wf c s" using inv by (rule tree_inv_wf)
  have X: "X < NUM_FRAMES c" using tree_wf_range [OF wf k(1)] .
  have Fr: "F < NUM_FRAMES c" using tree_wf_range [OF wf n(1)] .
  have Pr: "P < NUM_FRAMES c" using tree_wf_range [OF wf k(2)] .
  have r: "r < PAGE_SIZE c" and lk: "length kp < TABLES_DEPTH c"
    using k(1) by (auto simp: node_snoc)
  have X0: "X \<noteq> 0" using node_frame_0 [OF wf] k(1) by auto
  note aa = after_alloc [OF v X Fr k(4) n(3) s1 s2 s3]
  have tab: "length p + 1 < TABLES_DEPTH c \<Longrightarrow> (\<forall>i < PAGE_SIZE c. ram s2 (phys c X i) = 0)"
    using aa(2) by simp
  have 1: "node c s3 ds f \<longleftrightarrow> (node c s ds f \<and> Some ds \<noteq> Some (kp @ [r])) \<or> (ds = p @ [row] \<and> f = X)"
    for ds f
    using relink_moved [OF v inv n k A(1) aa(1) tab aa(3)] by simp
  have 2: "ram s3 (phys c f off) = ram s (phys c f off)"
    if q: "node c s q f" "length q = TABLES_DEPTH c" "q \<noteq> kp @ [r]" "off < PAGE_SIZE c" for q f off
  proof -
    have f: "f < NUM_FRAMES c" using tree_wf_range [OF wf q(1)] .
    have "f \<noteq> X" using tree_wf_unique [OF wf q(1), of "kp @ [r]"] k(1) q(3) by auto
    then have a: "\<not> in_frame c X (phys c f off)"
      using in_frame_phys [OF v X f q(4)] by simp
    have "f \<noteq> F" using leaf_frame_ne_table [OF wf q(1,2) n(1,2)] .
    then have b: "phys c f off \<noteq> phys c F row"
      using phys_inj [OF v f q(4) Fr n(3)] by simp
    have "f \<noteq> P" using leaf_frame_ne_table [OF wf q(1,2) k(2) lk] .
    then have "phys c f off \<noteq> phys c P r"
      using phys_inj [OF v f q(4) Pr r] by simp
    then show ?thesis using aa(6) [OF a b] A(1) by simp
  qed
  have 3: "swap s3 = (if length (kp @ [r]) = TABLES_DEPTH c
                 then (swap s)(page_of c (kp @ [r]) \<mapsto> (\<lambda>i. ram s (phys c X i))) else swap s)"
    using aa(4) A(2) by simp
  have L2: "\<forall>q f off. node c s q f \<and> length q = TABLES_DEPTH c \<and> Some q \<noteq> Some (kp @ [r])
             \<and> off < PAGE_SIZE c \<longrightarrow> ram s3 (phys c f off) = ram s (phys c f off)"
    using 2 by blast
  show ?thesis
    unfolding fault_post_def using 1 L2 3 k(1) X X0 aa(5) by simp
qed

lemma fault_post_fresh:
  assumes ctx: "fault_ctx c s p F row t"
    and X: "X < NUM_FRAMES c" "X \<noteq> 0" "\<And>ds. \<not> node c s ds X" "\<And>g. g < X \<Longrightarrow> \<exists>ds. node c s ds g"
    and s1: "s1 = clearFrame c X (length p + 1 = TABLES_DEPTH c) s"
    and s2: "s2 = (if length p + 1 = TABLES_DEPTH c then PMrestore c X t s1 else clearFrame c X False s1)"
    and s3: "s3 = PMwrite (phys c F row) (ucast X) s2"
  shows "fault_post c s p row t X s3 None"
proof -
  have v: "valid_config c" and inv: "tree_inv c s"
    and n: "node c s p F" "length p < TABLES_DEPTH c" "row < PAGE_SIZE c" "PMread (phys c F row) s = 0"
    using ctx by (auto simp: fault_ctx_def)
  have wf: "tree_wf c s" using inv by (rule tree_inv_wf)
  have Fr: "F < NUM_FRAMES c" using tree_wf_range [OF wf n(1)] .
  have XF: "X \<noteq> F" using X(3) n(1) by blast
  note aa = after_alloc [OF v X(1) Fr XF n(3) s1 s2 s3]
  have tab: "length p + 1 < TABLES_DEPTH c \<Longrightarrow> (\<forall>i < PAGE_SIZE c. ram s2 (phys c X i) = 0)"
    using aa(2) by simp
  have 1: "node c s3 ds f \<longleftrightarrow> (node c s ds f \<and> Some ds \<noteq> None) \<or> (ds = p @ [row] \<and> f = X)" for ds f
    using relink_fresh [OF v inv n X(1,2,3) aa(1) tab aa(3)] by simp
  have 2: "ram s3 (phys c f off) = ram s (phys c f off)"
    if q: "node c s q f" "length q = TABLES_DEPTH c" "off < PAGE_SIZE c" for q f off
  proof -
    have f: "f < NUM_FRAMES c" using tree_wf_range [OF wf q(1)] .
    have "f \<noteq> X" using X(3) q(1) by blast
    then have a: "\<not> in_frame c X (phys c f off)"
      using in_frame_phys [OF v X(1) f q(3)] by simp
    have "f \<noteq> F" using leaf_frame_ne_table [OF wf q(1,2) n(1,2)] .
    then have b: "phys c f off \<noteq> phys c F row"
      using phys_inj [OF v f q(3) Fr n(3)] by simp
    show ?thesis using aa(6) [OF a b] by simp
  qed
  have L2: "\<forall>q f off. node c s q f \<and> length q = TABLES_DEPTH c \<and> Some q \<noteq> None
             \<and> off < PAGE_SIZE c \<longrightarrow> ram s3 (phys c f off) = ram s (phys c f off)"
    using 2 by blast
  have X': "\<forall>ds. \<not> node c s ds X" "\<forall>g < X. \<exists>ds. node c s ds g" using X(3,4) by blast+
  show ?thesis
    unfolding fault_post_def using 1 L2 X(1,2) X' aa(4) aa(5) by simp
qed

lemma fault_step:
  assumes ctx: "fault_ctx c s p F row t"
    and al: "allocateFrame c F row t (length p + 1 = TABLES_DEPTH c) s = (X, s1)"
    and s2: "s2 = (if length p + 1 = TABLES_DEPTH c then PMrestore c X t s1 else clearFrame c X False s1)"
    and s3: "s3 = PMwrite (phys c F row) (ucast X) s2"
  shows "\<exists>K. fault_post c s p row t X s3 K"
proof -
  let ?info = "scan c s 0 0 0 t F scanInfo_init"
  let ?leaf = "length p + 1 = TABLES_DEPTH c"
  have v: "valid_config c" and inv: "tree_inv c s"
    and n: "node c s p F" "length p < TABLES_DEPTH c"
    using ctx by (auto simp: fault_ctx_def)
  have wf: "tree_wf c s" using inv by (rule tree_inv_wf)
  have d: "0 < TABLES_DEPTH c" using v by (simp add: valid_config_def)
  consider (reuse) "emptyFrame ?info \<noteq> UINT64_MAX"
    | (fresh) "emptyFrame ?info = UINT64_MAX" "maxFrame ?info + 1 < NUM_FRAMES c"
    | (evict) "emptyFrame ?info = UINT64_MAX" "\<not> maxFrame ?info + 1 < NUM_FRAMES c"
    by blast
  then show ?thesis
  proof cases
    case reuse
    obtain kp r P Y where k: "candidate c s F (kp @ [r]) Y" "node c s kp P"
      "allocateFrame c F row t ?leaf s = (Y, clearFrame c Y ?leaf (PMwrite (phys c P r) 0 s))"
      using alloc_reuse [OF ctx reuse, of ?leaf] by blast
    have e: "Y = X" "s1 = clearFrame c X ?leaf (PMwrite (phys c P r) 0 s)" using k(3) al by auto
    have c1: "node c s (kp @ [r]) X" "childless c s (kp @ [r]) X" "X \<noteq> F"
      "length (kp @ [r]) \<noteq> TABLES_DEPTH c"
      using k(1) e(1) by (auto simp: candidate_def childless_def empty_table_def)
    have "fault_post c s p row t X s3 (Some (kp @ [r]))"
      using c1(4) by (intro fault_post_moved [OF ctx c1(1) k(2) c1(2,3) _ _ e(2) s2 s3]) simp_all
    then show ?thesis ..
  next
    case fresh
    obtain Y where k: "allocateFrame c F row t ?leaf s = (Y, clearFrame c Y ?leaf s)"
      "\<forall>ds. \<not> node c s ds Y" "Y < NUM_FRAMES c" "Y \<noteq> 0" "\<forall>g < Y. \<exists>ds. node c s ds g"
      using alloc_fresh [OF ctx fresh, of ?leaf] by blast
    have e: "Y = X" "s1 = clearFrame c X ?leaf s" using k(1) al by auto
    have "fault_post c s p row t X s3 None"
      using k(2-5) e(1) by (intro fault_post_fresh [OF ctx _ _ _ _ e(2) s2 s3]) auto
    then show ?thesis ..
  next
    case evict
    let ?L = "leaves c s 0 0 0"
    obtain i where i: "i < length ?L"
      "allocateFrame c F row t ?leaf s
             = (leafFrame (?L ! i),
                clearFrame c (leafFrame (?L ! i)) ?leaf
                  (PMwrite (phys c (leafParent (?L ! i)) (leafRow (?L ! i))) 0
                     (PMevict c (leafFrame (?L ! i)) (leafPage (?L ! i)) s)))"
      using alloc_evict [OF ctx evict, of ?leaf] by blast
    have "?L ! i \<in> set ?L" using i(1) by simp
    then obtain q where q: "length q = TABLES_DEPTH c" "node c s (butlast q) (leafParent (?L ! i))"
      "node c s q (leafFrame (?L ! i))" "leafRow (?L ! i) = last q" "leafPage (?L ! i) = page_of c q"
      unfolding set_leaves_root [OF d] by blast
    have qn: "q \<noteq> []" using q(1) d by auto
    then have qq: "butlast q @ [last q] = q" by simp
    let ?A = "PMwrite (phys c (leafParent (?L ! i)) (last q)) 0 (PMevict c X (page_of c q) s)"
    have e: "leafFrame (?L ! i) = X" "s1 = clearFrame c X ?leaf ?A"
      using i(2) al q(4,5) by auto
    have c1: "node c s (butlast q @ [last q]) X" using q(3) e(1) qq by simp
    have c2: "childless c s (butlast q @ [last q]) X" using q(1) qq by (simp add: childless_def)
    have c3: "X \<noteq> F" using leaf_frame_ne_table [OF wf q(3,1) n] e(1) by simp
    have "fault_post c s p row t X s3 (Some (butlast q @ [last q]))"
      using q(1) qq
      by (intro fault_post_moved [OF ctx c1 q(2) c2 c3 _ _ e(2) s2 s3]) (simp_all add: swap_PMevict)
    then show ?thesis ..
  qed
qed

section \<open>The walker\<close>

lemma walk_level_hit:
  "PMread (phys c F (indexAtLevel c va level)) s \<noteq> 0 \<Longrightarrow>
   walk_level c va create level (F, s) = Some (scast (PMread (phys c F (indexAtLevel c va level)) s), s)"
  by (simp add: walk_level_def Let_def)

lemma walk_level_miss:
  "PMread (phys c F (indexAtLevel c va level)) s = 0 \<Longrightarrow> walk_level c va False level (F, s) = None"
  by (simp add: walk_level_def Let_def)

lemma walk_level_fault:
  assumes "PMread (phys c F (indexAtLevel c va level)) s = 0"
    and "allocateFrame c F (indexAtLevel c va level) (drop_bit (OFFSET_WIDTH c) va)
           (level + 1 = TABLES_DEPTH c) s = (X, s1)"
  shows "walk_level c va True level (F, s) =
           Some (scast (ucast X :: word_t),
                 PMwrite (phys c F (indexAtLevel c va level)) (ucast X)
                   (if level + 1 = TABLES_DEPTH c
                    then PMrestore c X (drop_bit (OFFSET_WIDTH c) va) s1
                    else clearFrame c X False s1))"
  using assms by (simp add: walk_level_def Let_def)

lemma walk_levels_Nil [simp]: "walk_levels c va create [] fs = Some fs"
  by (simp add: walk_levels_def)

lemma walk_levels_None: "fold (\<lambda>level acc. case acc of None \<Rightarrow> None | Some fs' \<Rightarrow> walk_level c va create level fs') ls None = None"
  by (induction ls) auto

lemma walk_levels_snoc:
  "walk_levels c va create (ls @ [l]) fs =
     (case walk_levels c va create ls fs of None \<Rightarrow> None | Some fs' \<Rightarrow> walk_level c va create l fs')"
  by (simp add: walk_levels_def)

lemma walk_levels_upt_Suc:
  "walk_levels c va create [0 ..< Suc n] fs =
     (case walk_levels c va create [0 ..< n] fs of None \<Rightarrow> None | Some fs' \<Rightarrow> walk_level c va create n fs')"
  using walk_levels_snoc [of c va create "[0 ..< n]" n fs] by simp

text \<open>With creation, every level of the walk succeeds.\<close>

lemma walk_level_create: "\<exists>fs'. walk_level c va True level fs = Some fs'"
  by (cases fs) (simp add: walk_level_def Let_def split: prod.splits)

lemma walk_levels_create: "\<exists>fs'. walk_levels c va True ls fs = Some fs'"
proof (induction ls rule: rev_induct)
  case Nil
  then show ?case by simp
next
  case (snoc l ls)
  then obtain fs1 where "walk_levels c va True ls fs = Some fs1" by blast
  then show ?case using walk_level_create [of c va l fs1] by (simp add: walk_levels_snoc)
qed

lemma walk_create: "\<exists>f s'. walk c va True s = Some (f, s')"
  using walk_levels_create [of c va "[0 ..< TABLES_DEPTH c]" "(0, s)"] by (auto simp: walk_def)

text \<open>Without creation, the walk is the descent along the digits of the address.\<close>

lemma nth_digits: "l < TABLES_DEPTH c \<Longrightarrow> digits c va ! l = indexAtLevel c va l"
  by (simp add: digits_def)

lemma take_Suc_digits:
  "l < TABLES_DEPTH c \<Longrightarrow> take (Suc l) (digits c va) = take l (digits c va) @ [indexAtLevel c va l]"
  by (simp add: take_Suc_conv_app_nth nth_digits)

lemma walk_levels_nocreate:
  "n \<le> TABLES_DEPTH c \<Longrightarrow>
   walk_levels c va False [0 ..< n] (0, s)
     = map_option (\<lambda>f. (f, s)) (descend c s 0 (take n (digits c va)))"
proof (induction n)
  case 0
  then show ?case by simp
next
  case (Suc n)
  then have n: "n < TABLES_DEPTH c" by simp
  show ?case
    unfolding walk_levels_upt_Suc take_Suc_digits [OF n] descend_snoc
    using Suc n
    by (cases "descend c s 0 (take n (digits c va))")
      (auto simp: walk_level_hit walk_level_miss)
qed

lemma walk_nocreate:
  "walk c va False s = map_option (\<lambda>f. (f, s)) (descend c s 0 (digits c va))"
  using walk_levels_nocreate [of "TABLES_DEPTH c" c va s] by (simp add: walk_def)

section \<open>What the virtual memory holds\<close>

lemma view_fault:
  assumes ctx: "fault_ctx c s p F row t" and post: "fault_post c s p row t X s3 K"
    and va: "va < VIRTUAL_MEMORY_SIZE c" and x: "view c s va = Some x"
  shows "view c s3 va = Some x"
proof -
  let ?q = "digits c va" and ?pg = "drop_bit (OFFSET_WIDTH c) va" and ?off = "offsetOf c va"
  have v: "valid_config c" and inv: "tree_inv c s" using ctx by (auto simp: fault_ctx_def)
  have wf: "tree_wf c s" using inv by (rule tree_inv_wf)
  have vq: "vpath c ?q" "length ?q = TABLES_DEPTH c" using vpath_digits [OF v] by simp_all
  have pg: "page_of c ?q = ?pg" using page_of_digits [OF v va] .
  have off: "?off < PAGE_SIZE c" using offsetOf_less [OF v] .
  have un: "\<And>f. \<not> node c s (p @ [row]) f" using fault_ctx_unmapped [OF ctx] .
  have nodes: "\<And>ds f. node c s3 ds f \<longleftrightarrow> (node c s ds f \<and> Some ds \<noteq> K) \<or> (ds = p @ [row] \<and> f = X)"
    using post unfolding fault_post_def by blast
  have Kn: "\<And>k. K = Some k \<Longrightarrow> node c s k X" using post unfolding fault_post_def by blast
  have keep: "\<And>q f off. node c s q f \<Longrightarrow> length q = TABLES_DEPTH c \<Longrightarrow> Some q \<noteq> K
      \<Longrightarrow> off < PAGE_SIZE c \<Longrightarrow> ram s3 (phys c f off) = ram s (phys c f off)"
    using post unfolding fault_post_def by blast
  have sw: "swap s3 = (case K of None \<Rightarrow> swap s
                  | Some k \<Rightarrow> if length k = TABLES_DEPTH c
                              then (swap s)(page_of c k \<mapsto> (\<lambda>i. ram s (phys c X i)))
                              else swap s)"
    using post unfolding fault_post_def by blast
  have rest: "length p + 1 = TABLES_DEPTH c \<Longrightarrow> swap s3 t = Some pg' \<Longrightarrow> off' < PAGE_SIZE c
      \<Longrightarrow> ram s3 (phys c X off') = pg' off'" for pg' off'
    using post unfolding fault_post_def by blast
  have sw_other: "swap s3 (page_of c q) = swap s (page_of c q)"
    if q: "vpath c q" "length q = TABLES_DEPTH c" "Some q \<noteq> K" for q
  proof (cases K)
    case None
    then show ?thesis using sw by simp
  next
    case (Some k)
    have "page_of c k \<noteq> page_of c q" if "length k = TABLES_DEPTH c"
    proof
      assume e: "page_of c k = page_of c q"
      have "vpath c k" using Kn [OF Some] by (simp add: node_def)
      then have "k = q" using page_of_inj [OF v _ q(1) _ e] that q(2) by simp
      then show False using q(3) Some by simp
    qed
    then show ?thesis using sw Some by auto
  qed
  show ?thesis
  proof (cases "descend c s 0 ?q")
    case (Some f)
    then have nf: "node c s ?q f" using vq by (simp add: node_def)
    have x': "x = ram s (phys c f ?off)" using x Some by (simp add: view_def)
    show ?thesis
    proof (cases "K = Some ?q")
      case True
      then have fX: "f = X" using Kn [OF True] nf node_fun by blast
      have "?q \<noteq> p @ [row]" using nf un by auto
      then have "\<not> node c s3 ?q g" for g using nodes True by simp
      then have d3: "descend c s3 0 ?q = None" using vq by (cases "descend c s3 0 ?q") (auto simp: node_def)
      have "swap s3 ?pg = Some (\<lambda>i. ram s (phys c X i))"
        using sw True vq(2) pg by simp
      then show ?thesis using d3 x' fX by (simp add: view_def)
    next
      case False
      then have "node c s3 ?q f" using nodes nf by auto
      then have d3: "descend c s3 0 ?q = Some f" by (simp add: node_def)
      have "ram s3 (phys c f ?off) = ram s (phys c f ?off)"
        using keep [OF nf vq(2) _ off] False by auto
      then show ?thesis using d3 x' by (simp add: view_def)
    qed
  next
    case None
    then have nn: "\<not> node c s ?q g" for g by (simp add: node_def)
    obtain pg' where pg': "swap s ?pg = Some pg'" "x = pg' ?off"
      using x None by (auto simp: view_def split: option.splits)
    have nK: "Some ?q \<noteq> K" using Kn nn by metis
    have sw3: "swap s3 ?pg = Some pg'" using sw_other [OF vq nK] pg pg'(1) by simp
    show ?thesis
    proof (cases "?q = p @ [row]")
      case True
      then have len: "length p + 1 = TABLES_DEPTH c" using vq(2) by (metis length_append_singleton Suc_eq_plus1)
      obtain q0 where q0: "vpath c q0" "length q0 = TABLES_DEPTH c" "prefix (p @ [row]) q0" "t = page_of c q0"
        using ctx unfolding fault_ctx_def by blast
      have "q0 = p @ [row]"
      proof -
        obtain zs where zs: "q0 = (p @ [row]) @ zs" using q0(3) by (auto simp: prefix_def)
        then have "length q0 = length p + 1 + length zs" by simp
        then have "length zs = 0" using q0(2) len by linarith
        then show ?thesis using zs by simp
      qed
      then have t: "t = ?pg" using q0(4) True pg by simp
      have "node c s3 ?q X" using nodes True by simp
      then have d3: "descend c s3 0 ?q = Some X" by (simp add: node_def)
      have "ram s3 (phys c X ?off) = pg' ?off" using rest [OF len _ off] sw3 t by simp
      then show ?thesis using d3 pg'(2) by (simp add: view_def)
    next
      case False
      then have "\<not> node c s3 ?q g" for g using nodes nn by simp
      then have d3: "descend c s3 0 ?q = None" using vq by (cases "descend c s3 0 ?q") (auto simp: node_def)
      show ?thesis using d3 sw3 pg'(2) by (simp add: view_def)
    qed
  qed
qed

section \<open>The walk keeps the tree and the memory content\<close>

lemma view_kept_refl [simp]: "view_kept c s s"
  by (simp add: view_kept_def)

lemma view_kept_trans: "view_kept c s s' \<Longrightarrow> view_kept c s' s'' \<Longrightarrow> view_kept c s s''"
  unfolding view_kept_def by blast

lemma walk_fault_ctx:
  assumes v: "valid_config c" and va: "va < VIRTUAL_MEMORY_SIZE c" and n: "n < TABLES_DEPTH c"
    and inv: "tree_inv c s" and nd: "node c s (take n (digits c va)) F"
    and z: "PMread (phys c F (indexAtLevel c va n)) s = 0"
  shows "fault_ctx c s (take n (digits c va)) F (indexAtLevel c va n) (drop_bit (OFFSET_WIDTH c) va)"
proof -
  have "prefix (take n (digits c va) @ [indexAtLevel c va n]) (digits c va)"
    using take_is_prefix [of "Suc n" "digits c va"] take_Suc_digits [OF n, of va] by simp
  moreover have "drop_bit (OFFSET_WIDTH c) va = page_of c (digits c va)"
    using page_of_digits [OF v va] by simp
  ultimately have "\<exists>q0. vpath c q0 \<and> length q0 = TABLES_DEPTH c
      \<and> prefix (take n (digits c va) @ [indexAtLevel c va n]) q0
      \<and> drop_bit (OFFSET_WIDTH c) va = page_of c q0"
    using vpath_digits [OF v, of va] by (intro exI [of _ "digits c va"]) simp
  then show ?thesis
    unfolding fault_ctx_def using v inv nd n z indexAtLevel_less [OF v] by simp
qed

lemma walk_level_step:
  assumes v: "valid_config c" and va: "va < VIRTUAL_MEMORY_SIZE c" and n: "n < TABLES_DEPTH c"
    and inv: "tree_inv c s" and nd: "node c s (take n (digits c va)) F"
    and w: "walk_level c va True n (F, s) = Some (F', s')"
  shows "tree_inv c s'" "node c s' (take (Suc n) (digits c va)) F'" "view_kept c s s'"
proof -
  let ?p = "take n (digits c va)" and ?row = "indexAtLevel c va n"
  let ?t = "drop_bit (OFFSET_WIDTH c) va"
  have lp: "length ?p = n" using n by simp
  have row: "?row < PAGE_SIZE c" using indexAtLevel_less [OF v] .
  have "tree_inv c s' \<and> node c s' (take (Suc n) (digits c va)) F' \<and> view_kept c s s'"
  proof (cases "PMread (phys c F ?row) s = 0")
    case False
    have "F' = scast (PMread (phys c F ?row) s)" "s' = s"
      using w walk_level_hit [OF False, of True] by auto
    then show ?thesis
      using inv nd False lp n row unfolding take_Suc_digits [OF n] by (auto simp: node_snoc)
  next
    case True
    have ctx: "fault_ctx c s ?p F ?row ?t" using walk_fault_ctx [OF v va n inv nd True] .
    obtain X s1 where al: "allocateFrame c F ?row ?t (n + 1 = TABLES_DEPTH c) s = (X, s1)"
      by (cases "allocateFrame c F ?row ?t (n + 1 = TABLES_DEPTH c) s") auto
    define s2 where "s2 = (if n + 1 = TABLES_DEPTH c then PMrestore c X ?t s1 else clearFrame c X False s1)"
    define s3 where "s3 = PMwrite (phys c F ?row) (ucast X) s2"
    have e: "F' = scast (ucast X :: word_t)" "s' = s3"
      using w walk_level_fault [OF True al] unfolding s3_def s2_def by auto
    have al': "allocateFrame c F ?row ?t (length ?p + 1 = TABLES_DEPTH c) s = (X, s1)"
      using al lp by simp
    have s2': "s2 = (if length ?p + 1 = TABLES_DEPTH c then PMrestore c X ?t s1 else clearFrame c X False s1)"
      using s2_def lp by simp
    obtain K where post: "fault_post c s ?p ?row ?t X s3 K"
      using fault_step [OF ctx al' s2' s3_def] by blast
    have "X < NUM_FRAMES c" using post by (simp add: fault_post_def)
    then have "unat X < 2 ^ 31" using v by (simp add: valid_config_def word_less_nat_alt)
    then have FX: "F' = X" using e(1) frame_cast by simp
    have "view_kept c s s3"
      unfolding view_kept_def using view_fault [OF ctx post] by blast
    then show ?thesis
      using fault_post_tree_inv [OF ctx post] fault_post_linked [OF post] FX e(2)
      unfolding take_Suc_digits [OF n] by simp
  qed
  then show "tree_inv c s'" "node c s' (take (Suc n) (digits c va)) F'" "view_kept c s s'" by auto
qed

lemma walk_levels_inv:
  assumes v: "valid_config c" and va: "va < VIRTUAL_MEMORY_SIZE c" and inv: "tree_inv c s"
  shows "n \<le> TABLES_DEPTH c \<Longrightarrow> walk_levels c va True [0 ..< n] (0, s) = Some (F, s')
     \<Longrightarrow> tree_inv c s' \<and> node c s' (take n (digits c va)) F \<and> view_kept c s s'"
proof (induction n arbitrary: F s')
  case 0
  then show ?case using inv by simp
next
  case (Suc n)
  obtain F1 s1 where 1: "walk_levels c va True [0 ..< n] (0, s) = Some (F1, s1)"
    using walk_levels_create [of c va "[0 ..< n]" "(0, s)"] by auto
  have n: "n < TABLES_DEPTH c" using Suc.prems(1) by simp
  have IH: "tree_inv c s1" "node c s1 (take n (digits c va)) F1" "view_kept c s s1"
    using Suc.IH [OF _ 1] n by auto
  have w: "walk_level c va True n (F1, s1) = Some (F, s')"
    using Suc.prems(2) 1 unfolding walk_levels_upt_Suc by simp
  show ?case
    using walk_level_step [OF v va n IH(1,2) w] view_kept_trans [OF IH(3)] by blast
qed

lemma walk_ok:
  assumes "valid_config c" "va < VIRTUAL_MEMORY_SIZE c" "tree_inv c s"
    and "walk c va True s = Some (F, s')"
  shows "tree_inv c s'" "node c s' (digits c va) F" "view_kept c s s'"
  using walk_levels_inv [OF assms(1-3), of "TABLES_DEPTH c" F s'] assms(4)
  by (auto simp: walk_def)

section \<open>Reading and writing a word\<close>

lemma tree_inv_cong:
  assumes "\<And>ds f. node c s' ds f \<longleftrightarrow> node c s ds f" "tree_inv c s"
  shows "tree_inv c s'"
  using assms unfolding tree_inv_def tree_wf_def by simp

lemma write_leaf:
  assumes v: "valid_config c" and va: "va < VIRTUAL_MEMORY_SIZE c" and inv: "tree_inv c s"
    and nd: "node c s (digits c va) F"
  shows "tree_inv c (PMwrite (phys c F (offsetOf c va)) x s)"
    and "view c (PMwrite (phys c F (offsetOf c va)) x s) va = Some x"
    and "\<And>a y. a < VIRTUAL_MEMORY_SIZE c \<Longrightarrow> a \<noteq> va \<Longrightarrow> view c s a = Some y
           \<Longrightarrow> view c (PMwrite (phys c F (offsetOf c va)) x s) a = Some y"
    and "\<And>ds f. node c (PMwrite (phys c F (offsetOf c va)) x s) ds f \<longleftrightarrow> node c s ds f"
proof -
  let ?s' = "PMwrite (phys c F (offsetOf c va)) x s"
  have wf: "tree_wf c s" using inv by (rule tree_inv_wf)
  have Fr: "F < NUM_FRAMES c" using tree_wf_range [OF wf nd] .
  have off: "offsetOf c va < PAGE_SIZE c" using offsetOf_less [OF v] .
  have nodes: "node c ?s' ds f \<longleftrightarrow> node c s ds f" for ds f
  proof (rule node_agree)
    fix ds f r assume n: "node c s ds f" "length ds < TABLES_DEPTH c" "r < PAGE_SIZE c"
    have "F \<noteq> f" using leaf_frame_ne_table [OF wf nd _ n(1,2)] by simp
    then have "phys c f r \<noteq> phys c F (offsetOf c va)"
      using phys_inj [OF v tree_wf_range [OF wf n(1)] n(3) Fr off] by simp
    then show "ram ?s' (phys c f r) = ram s (phys c f r)" by simp
  qed
  show "tree_inv c ?s'" using tree_inv_cong [OF nodes inv] .
  have d: "descend c ?s' 0 q = descend c s 0 q" if "vpath c q" for q
    using nodes [of q] that unfolding node_def
    by (cases "descend c ?s' 0 q"; cases "descend c s 0 q") auto
  have dva: "descend c s 0 (digits c va) = Some F" using nd by (simp add: node_def)
  show "view c ?s' va = Some x"
    using d [OF vpath_digits [OF v]] dva by (simp add: view_def)
  show "view c ?s' a = Some y" if a: "a < VIRTUAL_MEMORY_SIZE c" "a \<noteq> va" "view c s a = Some y" for a y
  proof (cases "descend c s 0 (digits c a)")
    case None
    then show ?thesis using a(3) d [OF vpath_digits [OF v], of a] by (simp add: view_def)
  next
    case (Some g)
    then have ng: "node c s (digits c a) g" using vpath_digits [OF v] by (simp add: node_def)
    have "phys c g (offsetOf c a) \<noteq> phys c F (offsetOf c va)"
    proof
      assume "phys c g (offsetOf c a) = phys c F (offsetOf c va)"
      then have e: "g = F" "offsetOf c a = offsetOf c va"
        using phys_inj [OF v tree_wf_range [OF wf ng] offsetOf_less [OF v] Fr off] by auto
      then have "digits c a = digits c va" using tree_wf_unique [OF wf ng] nd by simp
      then have "drop_bit (OFFSET_WIDTH c) a = drop_bit (OFFSET_WIDTH c) va"
        using digits_eq_iff [OF v a(1) va] by simp
      then show False using va_eqI e(2) a(2) by blast
    qed
    then show ?thesis using a(3) Some d [OF vpath_digits [OF v], of a] by (simp add: view_def)
  qed
  show "node c ?s' ds f \<longleftrightarrow> node c s ds f" for ds f by (rule nodes)
qed

lemma VMwrite_range: "VIRTUAL_MEMORY_SIZE c \<le> a \<Longrightarrow> VMwrite c a x s = Some (0, s)"
  by (simp add: VMwrite_def)

lemma VMread_range: "VIRTUAL_MEMORY_SIZE c \<le> a \<Longrightarrow> VMread c a s = Some (0, None, s)"
  by (simp add: VMread_def)

lemma VMwrite_ok:
  assumes v: "valid_config c" and a: "a < VIRTUAL_MEMORY_SIZE c" and inv: "tree_inv c s"
    and w: "VMwrite c a x s = Some (r, s')"
  shows "r = 1" "tree_inv c s'" "view c s' a = Some x"
    and "\<And>b y. b < VIRTUAL_MEMORY_SIZE c \<Longrightarrow> b \<noteq> a \<Longrightarrow> view c s b = Some y \<Longrightarrow> view c s' b = Some y"
proof -
  obtain F s1 where wk: "walk c a True s = Some (F, s1)" using walk_create by blast
  have e: "r = 1" "s' = PMwrite (phys c F (offsetOf c a)) x s1"
    using w wk a by (auto simp: VMwrite_def not_le [symmetric])
  note k = walk_ok [OF v a inv wk]
  show "r = 1" using e by simp
  show "tree_inv c s'" "view c s' a = Some x" using write_leaf [OF v a k(1,2)] e by auto
  show "view c s' b = Some y" if "b < VIRTUAL_MEMORY_SIZE c" "b \<noteq> a" "view c s b = Some y" for b y
  proof -
    have "view c s1 b = Some y" using k(3) that unfolding view_kept_def by blast
    then show ?thesis using write_leaf(3) [OF v a k(1,2) that(1,2)] e by simp
  qed
qed

lemma VMread_ok:
  assumes v: "valid_config c" and a: "a < VIRTUAL_MEMORY_SIZE c" and inv: "tree_inv c s"
    and w: "VMread c a s = Some (r, vo, s')"
  shows "r = 1" "tree_inv c s'" "view_kept c s s'" "\<exists>x. vo = Some x \<and> view c s' a = Some x"
proof -
  obtain F s1 where wk: "walk c a True s = Some (F, s1)" using walk_create by blast
  have e: "r = 1" "s' = s1" "vo = Some (PMread (phys c F (offsetOf c a)) s1)"
    using w wk a by (auto simp: VMread_def not_le [symmetric])
  note k = walk_ok [OF v a inv wk]
  show "r = 1" using e by simp
  show "tree_inv c s'" "view_kept c s s'" using k e by auto
  have "descend c s1 0 (digits c a) = Some F" using k(2) by (simp add: node_def)
  then show "\<exists>x. vo = Some x \<and> view c s' a = Some x"
    using e by (simp add: view_def PMread_def)
qed

section \<open>Runs of the public interface\<close>

lemma node_VMinitialize:
  assumes v: "valid_config c"
  shows "node c (VMinitialize c s0) ds f \<longleftrightarrow> ds = [] \<and> f = 0"
proof (cases ds)
  case Nil
  then show ?thesis by auto
next
  case (Cons d ds')
  have "\<not> node c (VMinitialize c s0) (d # ds') f"
  proof
    assume n: "node c (VMinitialize c s0) (d # ds') f"
    then have "d < PAGE_SIZE c" by (simp add: node_def vpath_def)
    then have "PMread (phys c 0 d) (VMinitialize c s0) = 0"
      unfolding VMinitialize_def by (rule PMread_clearFrame_in)
    then show False using n by (simp add: node_def)
  qed
  then show ?thesis using Cons by simp
qed

lemma tree_inv_VMinitialize:
  assumes v: "valid_config c"
  shows "tree_inv c (VMinitialize c s0)"
proof -
  have "0 < unat (NUM_FRAMES c)" using v by (simp add: valid_config_def)
  then have "0 < NUM_FRAMES c" by (simp add: word_less_nat_alt)
  then show ?thesis
    unfolding tree_inv_def tree_wf_def node_VMinitialize [OF v] by auto
qed

lemma step_inv:
  assumes v: "valid_config c" and inv: "tree_inv c s" and st: "step c op s = Some s'"
  shows "tree_inv c s'"
proof (cases op)
  case (Read a)
  then obtain r vo where r: "VMread c a s = Some (r, vo, s')"
    using st by (auto simp: step_def)
  show ?thesis
  proof (cases "a < VIRTUAL_MEMORY_SIZE c")
    case True
    then show ?thesis using VMread_ok(2) [OF v True inv r] by simp
  next
    case False
    then show ?thesis using r inv by (simp add: VMread_range not_less)
  qed
next
  case (Write a x)
  then obtain r where r: "VMwrite c a x s = Some (r, s')"
    using st by (auto simp: step_def)
  show ?thesis
  proof (cases "a < VIRTUAL_MEMORY_SIZE c")
    case True
    then show ?thesis using VMwrite_ok(2) [OF v True inv r] by simp
  next
    case False
    then show ?thesis using r inv by (simp add: VMwrite_range not_less)
  qed
qed

lemma reachable_inv:
  assumes v: "valid_config c"
  shows "reachable c s \<Longrightarrow> tree_inv c s"
proof (induction rule: reachable.induct)
  case (init s0)
  show ?case by (rule tree_inv_VMinitialize [OF v])
next
  case (step s op s')
  then show ?case using step_inv [OF v] by blast
qed

lemma walking_inv:
  assumes v: "valid_config c" and w: "walking c va level frame s"
  shows "tree_inv c s" "node c s (take level (digits c va)) frame"
proof -
  obtain s0 where s0: "reachable c s0" "va < VIRTUAL_MEMORY_SIZE c" "level \<le> TABLES_DEPTH c"
    "walk_levels c va True [0 ..< level] (0, s0) = Some (frame, s)"
    using w unfolding walking_def by blast
  show "tree_inv c s" "node c s (take level (digits c va)) frame"
    using walk_levels_inv [OF v s0(2) reachable_inv [OF v s0(1)] s0(3,4)] by auto
qed

lemma reachable_walking:
  "valid_config c \<Longrightarrow> reachable c s \<Longrightarrow> walking c 0 0 0 s"
  unfolding walking_def using valid_config_DW [of c]
  by (intro exI [of _ s]) (simp add: VIRTUAL_MEMORY_SIZE_def NUM_PAGES_def PAGE_SIZE_def word_neq_0_conv [symmetric] power_add [symmetric])

lemma walker_call_ctx:
  assumes v: "valid_config c" and w: "walker_call c va level frame s"
  shows "fault_ctx c s (take level (digits c va)) frame (indexAtLevel c va level)
           (drop_bit (OFFSET_WIDTH c) va)"
proof -
  have wk: "walking c va level frame s" and l: "level < TABLES_DEPTH c"
    and z: "PMread (phys c frame (indexAtLevel c va level)) s = 0"
    using w by (auto simp: walker_call_def)
  have va: "va < VIRTUAL_MEMORY_SIZE c" using wk by (auto simp: walking_def)
  show ?thesis using walk_fault_ctx [OF v va l walking_inv [OF v wk] z] .
qed

section \<open>Claims on the public interface\<close>

lemma VMwrite_total: "\<exists>r s'. VMwrite c a x s = Some (r, s')"
  using walk_create [of c a s] by (auto simp: VMwrite_def)

lemma VMread_total: "\<exists>r vo s'. VMread c a s = Some (r, vo, s')"
  using walk_create [of c a s] by (auto simp: VMread_def)

lemma run_keeps:
  assumes v: "valid_config c" and a: "a < VIRTUAL_MEMORY_SIZE c"
  shows "tree_inv c s \<Longrightarrow> view c s a = Some x \<Longrightarrow> (\<forall>y. Write a y \<notin> set ops)
     \<Longrightarrow> \<exists>s'. run c ops s = Some s' \<and> tree_inv c s' \<and> view c s' a = Some x"
proof (induction ops arbitrary: s)
  case Nil
  then show ?case by simp
next
  case (Cons op ops)
  have "\<exists>s1. step c op s = Some s1 \<and> tree_inv c s1 \<and> view c s1 a = Some x"
  proof (cases op)
    case (Read b)
    obtain r vo s1 where r: "VMread c b s = Some (r, vo, s1)" using VMread_total by blast
    have st: "step c op s = Some s1" using Read r by (simp add: step_def)
    show ?thesis
    proof (cases "b < VIRTUAL_MEMORY_SIZE c")
      case True
      have "view_kept c s s1" using VMread_ok(3) [OF v True Cons.prems(1) r] .
      then have "view c s1 a = Some x" using a Cons.prems(2) unfolding view_kept_def by blast
      then show ?thesis using st VMread_ok(2) [OF v True Cons.prems(1) r] by simp
    next
      case False
      then have "s1 = s" using r by (simp add: VMread_range not_less)
      then show ?thesis using st Cons.prems by simp
    qed
  next
    case (Write b y)
    then have ne: "b \<noteq> a" using Cons.prems(3) by auto
    obtain r s1 where r: "VMwrite c b y s = Some (r, s1)" using VMwrite_total by blast
    have st: "step c op s = Some s1" using Write r by (simp add: step_def)
    show ?thesis
    proof (cases "b < VIRTUAL_MEMORY_SIZE c")
      case True
      have "view c s1 a = Some x"
        using VMwrite_ok(4) [OF v True Cons.prems(1) r a _ Cons.prems(2)] ne by simp
      then show ?thesis using st VMwrite_ok(2) [OF v True Cons.prems(1) r] by simp
    next
      case False
      then have "s1 = s" using r by (simp add: VMwrite_range not_less)
      then show ?thesis using st Cons.prems by simp
    qed
  qed
  then obtain s1 where s1: "step c op s = Some s1" "tree_inv c s1" "view c s1 a = Some x" by blast
  have "\<forall>y. Write a y \<notin> set ops" using Cons.prems(3) by simp
  then obtain s' where "run c ops s1 = Some s' \<and> tree_inv c s' \<and> view c s' a = Some x"
    using Cons.IH [OF s1(2,3)] by blast
  then show ?case using s1(1) by simp
qed

text \<open>
  Claim C1. From any reachable state (the initialized state is one), a write of \<open>v\<close> to an
  address \<open>a\<close> in range, then any reads and any writes to other addresses, out of range or
  in range, on the same page or on other pages, whatever they evict, then a read of \<open>a\<close>:
  every call returns, the write and the read return 1, and the read yields \<open>v\<close>.
\<close>

theorem vm_round_trip:
  assumes "valid_config c" and "reachable c s" and "a < VIRTUAL_MEMORY_SIZE c"
    and "\<forall>y. Write a y \<notin> set ops"
  shows "\<exists>s1 s2 s3. VMwrite c a v s = Some (1, s1) \<and> run c ops s1 = Some s2
           \<and> VMread c a s2 = Some (1, Some v, s3)"
proof -
  have inv: "tree_inv c s" using reachable_inv [OF assms(1,2)] .
  obtain r s1 where w: "VMwrite c a v s = Some (r, s1)" using VMwrite_total by blast
  note wk = VMwrite_ok [OF assms(1,3) inv w]
  obtain s2 where s2: "run c ops s1 = Some s2" "tree_inv c s2" "view c s2 a = Some v"
    using run_keeps [OF assms(1,3) wk(2,3) assms(4)] by blast
  obtain r' vo s3 where rd: "VMread c a s2 = Some (r', vo, s3)" using VMread_total by blast
  note rk = VMread_ok [OF assms(1,3) s2(2) rd]
  have "view c s3 a = Some v" using rk(3) s2(3) assms(3) unfolding view_kept_def by blast
  then have "vo = Some v" using rk(4) by auto
  then show ?thesis using w wk(1) s2(1) rd rk(1) by auto
qed

lemma VMwrite_maps:
  assumes v: "valid_config c" and a: "a < VIRTUAL_MEMORY_SIZE c" and inv: "tree_inv c s"
  shows "\<exists>F s'. VMwrite c a x s = Some (1, s') \<and> node c s' (digits c a) F \<and> F \<noteq> 0
           \<and> walk c a False s' = Some (F, s') \<and> PMread (phys c F (offsetOf c a)) s' = x"
proof -
  obtain F s1 where wk: "walk c a True s = Some (F, s1)" using walk_create by blast
  let ?s' = "PMwrite (phys c F (offsetOf c a)) x s1"
  have e: "VMwrite c a x s = Some (1, ?s')"
    using wk a by (simp add: VMwrite_def not_le [symmetric])
  note k = walk_ok [OF v a inv wk]
  have n: "node c ?s' (digits c a) F" using write_leaf(4) [OF v a k(1,2)] k(2) by simp
  have wf: "tree_wf c ?s'" using write_leaf(1) [OF v a k(1,2)] by (rule tree_inv_wf)
  have "digits c a \<noteq> []" using v by (auto simp: valid_config_def dest: arg_cong [of _ _ length])
  then have z: "F \<noteq> 0" using node_frame_0 [OF wf] n by blast
  have w: "walk c a False ?s' = Some (F, ?s')" using n by (simp add: walk_nocreate node_def)
  have r: "PMread (phys c F (offsetOf c a)) ?s' = x" by (simp add: PMread_def)
  show ?thesis using e n z w r by blast
qed

lemma VMread_maps:
  assumes v: "valid_config c" and a: "a < VIRTUAL_MEMORY_SIZE c" and inv: "tree_inv c s"
  shows "\<exists>F s'. VMread c a s = Some (1, Some (PMread (phys c F (offsetOf c a)) s'), s')
           \<and> node c s' (digits c a) F \<and> F \<noteq> 0 \<and> walk c a False s' = Some (F, s')"
proof -
  obtain F s1 where wk: "walk c a True s = Some (F, s1)" using walk_create by blast
  have e: "VMread c a s = Some (1, Some (PMread (phys c F (offsetOf c a)) s1), s1)"
    using wk a by (simp add: VMread_def not_le [symmetric])
  note k = walk_ok [OF v a inv wk]
  have wf: "tree_wf c s1" using k(1) by (rule tree_inv_wf)
  have "digits c a \<noteq> []" using v by (auto simp: valid_config_def dest: arg_cong [of _ _ length])
  then have z: "F \<noteq> 0" using node_frame_0 [OF wf] k(2) by blast
  have w: "walk c a False s1 = Some (F, s1)" using k(2) by (simp add: walk_nocreate node_def)
  show ?thesis using e k(2) z w by blast
qed

text \<open>
  Claim C2. For an address at or beyond \<^verbatim>\<open>VIRTUAL_MEMORY_SIZE\<close>, \<^verbatim>\<open>VMread\<close> and
  \<^verbatim>\<open>VMwrite\<close> return 0 and leave the state (physical memory, with the tree in it, and swap
  store) as it is, and \<^verbatim>\<open>VMread\<close> stores no value. For an address below, both return 1,
  in every state. In a run the fault is resolved by creation: after the call the page of
  the address is mapped, by the entries of the tables, to a frame \<open>F\<close> other than the root,
  the translation without creation reaches \<open>F\<close>, the value read is the word of \<open>F\<close> at the
  offset of the address, and the value written is there.
\<close>

theorem vm_range_error:
  "(VIRTUAL_MEMORY_SIZE c \<le> a \<longrightarrow>
      VMread c a s = Some (0, None, s) \<and> VMwrite c a v s = Some (0, s))
   \<and> (a < VIRTUAL_MEMORY_SIZE c \<longrightarrow>
      (\<exists>x s'. VMread c a s = Some (1, Some x, s')) \<and> (\<exists>s'. VMwrite c a v s = Some (1, s')))
   \<and> (valid_config c \<and> reachable c s \<and> a < VIRTUAL_MEMORY_SIZE c \<longrightarrow>
      (\<exists>F s'. VMread c a s = Some (1, Some (PMread (phys c F (offsetOf c a)) s'), s')
          \<and> node c s' (digits c a) F \<and> F \<noteq> 0 \<and> walk c a False s' = Some (F, s'))
      \<and> (\<exists>F s'. VMwrite c a v s = Some (1, s')
          \<and> node c s' (digits c a) F \<and> F \<noteq> 0 \<and> walk c a False s' = Some (F, s')
          \<and> PMread (phys c F (offsetOf c a)) s' = v))"
proof (intro conjI impI)
  assume "VIRTUAL_MEMORY_SIZE c \<le> a"
  then show "VMread c a s = Some (0, None, s)" "VMwrite c a v s = Some (0, s)"
    by (simp_all add: VMread_def VMwrite_def)
next
  assume a: "a < VIRTUAL_MEMORY_SIZE c"
  obtain f s' where "walk c a True s = Some (f, s')" using walk_create by blast
  then show "\<exists>x s'. VMread c a s = Some (1, Some x, s')" "\<exists>s'. VMwrite c a v s = Some (1, s')"
    using a by (simp_all add: VMread_def VMwrite_def not_le [symmetric])
next
  assume h: "valid_config c \<and> reachable c s \<and> a < VIRTUAL_MEMORY_SIZE c"
  then have inv: "tree_inv c s" using reachable_inv by blast
  show "\<exists>F s'. VMread c a s = Some (1, Some (PMread (phys c F (offsetOf c a)) s'), s')
          \<and> node c s' (digits c a) F \<and> F \<noteq> 0 \<and> walk c a False s' = Some (F, s')"
    using VMread_maps [OF _ _ inv] h by blast
  show "\<exists>F s'. VMwrite c a v s = Some (1, s')
          \<and> node c s' (digits c a) F \<and> F \<noteq> 0 \<and> walk c a False s' = Some (F, s')
          \<and> PMread (phys c F (offsetOf c a)) s' = v"
    using VMwrite_maps [OF _ _ inv] h by blast
qed

section \<open>Claims on the tree\<close>

text \<open>
  Claim C6. In every state of a run, between two calls of the interface and between two
  iterations of the walker, two different entries of tables of the tree never hold the same
  non-zero frame number.
\<close>

theorem frame_uniqueness:
  assumes "valid_config c" and "walking c va level frame s"
    and "node c s p f" "length p < TABLES_DEPTH c" "r < PAGE_SIZE c"
    and "node c s p' f'" "length p' < TABLES_DEPTH c" "r' < PAGE_SIZE c"
    and "(f, r) \<noteq> (f', r')" and "PMread (phys c f r) s \<noteq> 0"
  shows "PMread (phys c f r) s \<noteq> PMread (phys c f' r') s"
proof
  assume e: "PMread (phys c f r) s = PMread (phys c f' r') s"
  have wf: "tree_wf c s" using walking_inv(1) [OF assms(1,2)] by (rule tree_inv_wf)
  have "node c s (p @ [r]) (scast (PMread (phys c f r) s))"
    using assms(3-5,10) by (auto simp: node_snoc)
  moreover have "node c s (p' @ [r']) (scast (PMread (phys c f r) s))"
    using assms(6-8,10) e by (auto simp: node_snoc)
  ultimately have "p @ [r] = p' @ [r']" by (rule tree_wf_unique [OF wf])
  then have "p = p'" "r = r'" by auto
  then show False using assms(3,6,9) node_fun by blast
qed

lemma push_page:
  assumes v: "valid_config c" and pg: "pg < NUM_PAGES c"
  shows "push_bit (OFFSET_WIDTH c) pg < VIRTUAL_MEMORY_SIZE c"
    and "drop_bit (OFFSET_WIDTH c) (push_bit (OFFSET_WIDTH c) pg) = pg"
proof -
  let ?W = "OFFSET_WIDTH c" and ?D = "TABLES_DEPTH c"
  have n: "?D * ?W + ?W < 64" using valid_config_DW [OF v] .
  have pm: "pg AND mask (?D * ?W) = pg" using pg unfolding NUM_PAGES_def by (rule less_mask_eq)
  have small: "k < ?D * ?W" if "bit pg k" for k
  proof -
    have "bit (pg AND mask (?D * ?W)) k" using that pm by simp
    then show ?thesis by (simp add: bit_and_iff bit_mask_iff)
  qed
  have "push_bit ?W pg AND mask (?D * ?W + ?W) = push_bit ?W pg"
  proof (rule bit_word_eqI)
    fix k assume "k < LENGTH(64)"
    have "bit pg (k - ?W) \<Longrightarrow> ?W \<le> k \<Longrightarrow> k < ?D * ?W + ?W"
      using small [of "k - ?W"] by linarith
    then show "bit (push_bit ?W pg AND mask (?D * ?W + ?W)) k = bit (push_bit ?W pg) k"
      by (auto simp: bit_and_iff bit_mask_iff bit_push_bit_iff)
  qed
  moreover have "push_bit ?W pg AND mask (?D * ?W + ?W) < 2 ^ (?D * ?W + ?W)"
    using n by (intro and_mask_less_size) (simp add: word_size)
  ultimately show "push_bit ?W pg < VIRTUAL_MEMORY_SIZE c"
    by (simp add: VIRTUAL_MEMORY_SIZE_def NUM_PAGES_def PAGE_SIZE_def power_add)
  show "drop_bit ?W (push_bit ?W pg) = pg"
  proof (rule bit_word_eqI)
    fix k assume "k < LENGTH(64)"
    show "bit (drop_bit ?W (push_bit ?W pg)) k = bit pg k"
      using small [of k] n by (auto simp: bit_drop_bit_eq bit_push_bit_iff)
  qed
qed

lemma node_below_fresh:
  assumes v: "valid_config c" and wf: "tree_wf c s" and n: "node c s p F"
  shows "F < maxFrame (scan c s 0 0 0 t pf scanInfo_init) + 1"
proof -
  let ?info = "scan c s 0 0 0 t pf scanInfo_init"
  have d: "0 < TABLES_DEPTH c" using v by (simp add: valid_config_def)
  obtain dsM where dsM: "node c s dsM (maxFrame ?info)" using maxFrame_scan_root [OF d, of s t pf] by blast
  have le: "F \<le> maxFrame ?info" using maxFrame_scan_root [OF d, of s t pf] n by blast
  have "unat (maxFrame ?info) < unat (NUM_FRAMES c)"
    using tree_wf_range [OF wf dsM] by (simp add: word_less_nat_alt)
  moreover have "unat (NUM_FRAMES c) \<le> 2 ^ 31" using v by (simp add: valid_config_def)
  ultimately have "unat (maxFrame ?info) + unat (1::u64) < 2 ^ LENGTH(64)" by simp
  then have "unat (maxFrame ?info + 1) = unat (maxFrame ?info) + 1"
    by (simp add: unat_add_lem [THEN iffD1])
  then have "maxFrame ?info < maxFrame ?info + 1" by (simp add: word_less_nat_alt)
  then show ?thesis using le by simp
qed

text \<open>The scan records a data frame as victim with the page number and the entry of its path.\<close>

lemma scan_victim_leaf:
  assumes v: "valid_config c" and wf: "tree_wf c s"
    and n: "node c s q f" "length q = TABLES_DEPTH c"
    and e: "victimFrame (scan c s 0 0 0 t pf scanInfo_init) = f"
  shows "victimPage (scan c s 0 0 0 t pf scanInfo_init) = page_of c q"
    and "victimRowInParent (scan c s 0 0 0 t pf scanInfo_init) = last q"
    and "node c s (butlast q) (victimParent (scan c s 0 0 0 t pf scanInfo_init))"
proof -
  let ?info = "scan c s 0 0 0 t pf scanInfo_init"
  let ?L = "leaves c s 0 0 0"
  have d: "0 < TABLES_DEPTH c" using v by (simp add: valid_config_def)
  have fm: "f \<noteq> UINT64_MAX" using not_UINT64_MAX [OF tree_wf_range [OF wf n(1)]] .
  have "\<not> (\<forall>x \<in> set ?L. leaf_dist c t x \<le> fst (vproj scanInfo_init))"
  proof
    assume "\<forall>x \<in> set ?L. leaf_dist c t x \<le> fst (vproj scanInfo_init)"
    then have "vproj ?info = vproj scanInfo_init"
      using fold_vstep [of ?L c t "vproj scanInfo_init"] vproj_scan_gen(1) [of c s 0 0 0 t pf scanInfo_init]
      by simp
    then have "victimFrame ?info = UINT64_MAX" by (simp add: vproj_def scanInfo_init_def)
    then show False using e fm by simp
  qed
  then have "\<exists>i < length ?L. fold (vstep c t) ?L (vproj scanInfo_init) = leaf_victim c t (?L ! i)
           \<and> fst (vproj scanInfo_init) < leaf_dist c t (?L ! i)
           \<and> (\<forall>j < length ?L. leaf_dist c t (?L ! j) \<le> leaf_dist c t (?L ! i))
           \<and> (\<forall>j < i. leaf_dist c t (?L ! j) < leaf_dist c t (?L ! i))"
    using fold_vstep [of ?L c t "vproj scanInfo_init"] by (simp only: if_False)
  then obtain i where i0: "i < length ?L"
    "fold (vstep c t) ?L (vproj scanInfo_init) = leaf_victim c t (?L ! i)" by blast
  have i: "vproj ?info = leaf_victim c t (?L ! i)"
    using i0 vproj_scan_gen(1) [of c s 0 0 0 t pf scanInfo_init] by simp
  have "?L ! i \<in> set ?L" using i0(1) by simp
  then obtain q' where q': "length q' = TABLES_DEPTH c" "node c s (butlast q') (leafParent (?L ! i))"
    "node c s q' (leafFrame (?L ! i))" "leafRow (?L ! i) = last q'" "leafPage (?L ! i) = page_of c q'"
    unfolding set_leaves_root [OF d] by blast
  have vi: "victimFrame ?info = leafFrame (?L ! i)" "victimPage ?info = leafPage (?L ! i)"
    "victimRowInParent ?info = leafRow (?L ! i)" "victimParent ?info = leafParent (?L ! i)"
    using i by (simp_all add: vproj_def leaf_victim_def)
  have "node c s q' f" using q'(3) vi(1) e by simp
  then have qq: "q' = q" using n(1) by (rule tree_wf_unique [OF wf])
  show "victimPage ?info = page_of c q" using vi(2) q'(5) qq by simp
  show "victimRowInParent ?info = last q" using vi(3) q'(4) qq by simp
  show "node c s (butlast q) (victimParent ?info)" using vi(4) q'(2) qq by simp
qed

text \<open>When the allocator returns a frame that holds a data page, it has evicted that page.\<close>

lemma alloc_returns_leaf:
  assumes v: "valid_config c" and wf: "tree_wf c s"
    and n: "node c s q f" "length q = TABLES_DEPTH c"
    and al: "allocateFrame c pf row t isLeaf s = (f, s')"
  shows "\<exists>P. node c s (butlast q) P
           \<and> s' = clearFrame c f isLeaf (PMwrite (phys c P (last q)) 0 (PMevict c f (page_of c q) s))"
proof -
  let ?info = "scan c s 0 0 0 t pf scanInfo_init"
  have no_reuse: "\<not> (emptyFrame ?info \<noteq> UINT64_MAX \<and> emptyFrame ?info \<noteq> pf \<and> emptyFrame ?info = f)"
  proof
    assume h: "emptyFrame ?info \<noteq> UINT64_MAX \<and> emptyFrame ?info \<noteq> pf \<and> emptyFrame ?info = f"
    then have "resolved c s pf ?info" using scan_root_empty [OF v wf, of t pf] by blast
    then obtain ds r where "candidate c s pf (ds @ [r]) f" using h unfolding resolved_def by blast
    then have k: "node c s (ds @ [r]) f" "length (ds @ [r]) < TABLES_DEPTH c"
      by (simp_all add: candidate_def)
    have "ds @ [r] = q" using tree_wf_unique [OF wf k(1) n(1)] .
    then show False using k(2) n(2) by simp
  qed
  have no_fresh: "maxFrame ?info + 1 \<noteq> f" using node_below_fresh [OF v wf n(1), of t pf] by simp
  have r: "victimFrame ?info = f
     \<and> s' = clearFrame c (victimFrame ?info) isLeaf
              (PMwrite (phys c (victimParent ?info) (victimRowInParent ?info)) 0
                 (PMevict c (victimFrame ?info) (victimPage ?info) s))"
    using al no_reuse no_fresh by (auto simp: allocateFrame_def Let_def split: if_splits)
  note k = scan_victim_leaf [OF v wf n r [THEN conjunct1]]
  show ?thesis using r k by (intro exI [of _ "victimParent ?info"]) simp
qed

text \<open>
  When the walker maps a data frame, the page number it passes to \<^verbatim>\<open>PMrestore\<close> is the
  concatenation of the rows along which the frame is mapped from then on.
\<close>

lemma restore_page:
  assumes v: "valid_config c" and w: "walking c va level frame s"
    and l: "level + 1 = TABLES_DEPTH c"
    and z: "PMread (phys c frame (indexAtLevel c va level)) s = 0"
  shows "\<exists>X s1. allocateFrame c frame (indexAtLevel c va level) (drop_bit (OFFSET_WIDTH c) va) True s = (X, s1)
         \<and> walk_level c va True level (frame, s)
             = Some (X, PMwrite (phys c frame (indexAtLevel c va level)) (ucast X)
                          (PMrestore c X (page_of c (digits c va)) s1))
         \<and> node c (PMwrite (phys c frame (indexAtLevel c va level)) (ucast X)
                          (PMrestore c X (page_of c (digits c va)) s1)) (digits c va) X"
proof -
  let ?p = "take level (digits c va)" and ?row = "indexAtLevel c va level"
  let ?t = "drop_bit (OFFSET_WIDTH c) va"
  have lv: "level < TABLES_DEPTH c" using l by simp
  have va: "va < VIRTUAL_MEMORY_SIZE c" using w by (auto simp: walking_def)
  have ctx: "fault_ctx c s ?p frame ?row ?t"
    using walker_call_ctx [OF v, of va level frame s] w lv z by (simp add: walker_call_def)
  obtain X s1 where al: "allocateFrame c frame ?row ?t True s = (X, s1)" by (cases "allocateFrame c frame ?row ?t True s")
  let ?s3 = "PMwrite (phys c frame ?row) (ucast X) (PMrestore c X ?t s1)"
  have lp: "(length ?p + 1 = TABLES_DEPTH c) = True" using l by simp
  have al': "allocateFrame c frame ?row ?t (length ?p + 1 = TABLES_DEPTH c) s = (X, s1)"
    unfolding lp by (rule al)
  have s2: "PMrestore c X ?t s1 = (if length ?p + 1 = TABLES_DEPTH c then PMrestore c X ?t s1 else clearFrame c X False s1)"
    unfolding lp by simp
  obtain K where post: "fault_post c s ?p ?row ?t X ?s3 K"
    using fault_step [OF ctx al' s2 refl] by blast
  have nd: "node c ?s3 (?p @ [?row]) X" and X: "X < NUM_FRAMES c"
    using post unfolding fault_post_def by blast+
  have "?p @ [?row] = digits c va" using take_Suc_digits [OF lv, of va] l by simp
  then have nd': "node c ?s3 (digits c va) X" using nd by simp
  have "unat X < 2 ^ 31" using X v by (simp add: valid_config_def word_less_nat_alt)
  then have cast: "(scast (ucast X :: word_t) :: u64) = X" by (rule frame_cast)
  have wl: "walk_level c va True level (frame, s) = Some (X, ?s3)"
  proof -
    have "(level + 1 = TABLES_DEPTH c) = True" using l by simp
    then have "allocateFrame c frame ?row ?t (level + 1 = TABLES_DEPTH c) s = (X, s1)"
      using al by simp
    from walk_level_fault [OF z this] show ?thesis using l cast by simp
  qed
  have pg: "page_of c (digits c va) = ?t" using page_of_digits [OF v va] .
  show ?thesis using al wl nd' unfolding pg by blast
qed

text \<open>
  Claim C7. In every state of a run, for a data frame \<open>f\<close> mapped along the rows \<open>q\<close>: the
  concatenation of the rows, most significant first, is a page number; its digits, as
  \<^verbatim>\<open>indexAtLevel\<close> extracts them, are the rows; the translation of an address reaches \<open>f\<close>
  exactly when the address is on that page; the traversal meets \<open>f\<close> with that page number.
  It is the page number the scanner computes: whenever \<^verbatim>\<open>scan\<close> leaves \<open>f\<close> as the victim,
  \<^verbatim>\<open>victimPage\<close> is that number, and the parent and row it records are the entry of the
  path. It is the page number passed to \<^verbatim>\<open>PMevict\<close>: whenever \<^verbatim>\<open>allocateFrame\<close> returns
  \<open>f\<close>, it has evicted \<open>f\<close> under that number and zeroed that entry. And the page number the
  walker passes to \<^verbatim>\<open>PMrestore\<close> for a frame it maps is the concatenation of the rows
  along which it maps the frame.
\<close>

theorem path_reconstruction:
  assumes "valid_config c" and "walking c va0 level frame s"
    and "node c s q f" and "length q = TABLES_DEPTH c"
  shows "page_of c q < NUM_PAGES c
    \<and> (\<forall>l < TABLES_DEPTH c. indexAtLevel c (push_bit (OFFSET_WIDTH c) (page_of c q)) l = q ! l)
    \<and> (\<forall>va < VIRTUAL_MEMORY_SIZE c.
          walk c va False s = Some (f, s) \<longleftrightarrow> drop_bit (OFFSET_WIDTH c) va = page_of c q)
    \<and> (\<exists>x \<in> set (leaves c s 0 0 0). leafFrame x = f \<and> leafPage x = page_of c q)
    \<and> (\<forall>t pf. victimFrame (scan c s 0 0 0 t pf scanInfo_init) = f \<longrightarrow>
          victimPage (scan c s 0 0 0 t pf scanInfo_init) = page_of c q
          \<and> victimRowInParent (scan c s 0 0 0 t pf scanInfo_init) = last q
          \<and> node c s (butlast q) (victimParent (scan c s 0 0 0 t pf scanInfo_init)))
    \<and> (\<forall>pf row t isLeaf s'. allocateFrame c pf row t isLeaf s = (f, s') \<longrightarrow>
          (\<exists>P. node c s (butlast q) P
             \<and> s' = clearFrame c f isLeaf
                      (PMwrite (phys c P (last q)) 0 (PMevict c f (page_of c q) s))))
    \<and> (level + 1 = TABLES_DEPTH c \<and> PMread (phys c frame (indexAtLevel c va0 level)) s = 0 \<longrightarrow>
          (\<exists>X s1. allocateFrame c frame (indexAtLevel c va0 level) (drop_bit (OFFSET_WIDTH c) va0) True s
                     = (X, s1)
             \<and> walk_level c va0 True level (frame, s)
                 = Some (X, PMwrite (phys c frame (indexAtLevel c va0 level)) (ucast X)
                              (PMrestore c X (page_of c (digits c va0)) s1))
             \<and> node c (PMwrite (phys c frame (indexAtLevel c va0 level)) (ucast X)
                              (PMrestore c X (page_of c (digits c va0)) s1)) (digits c va0) X))"
proof -
  note v = assms(1)
  have wf: "tree_wf c s" using walking_inv(1) [OF assms(1,2)] by (rule tree_inv_wf)
  have vq: "vpath c q" using assms(3) by (simp add: node_def)
  have pg: "page_of c q < NUM_PAGES c" using page_of_less [OF v vq assms(4)] .
  let ?va = "push_bit (OFFSET_WIDTH c) (page_of c q)"
  have "page_of c (digits c ?va) = page_of c q"
    using page_of_digits [OF v push_page(1) [OF v pg]] push_page(2) [OF v pg] by simp
  then have dq: "digits c ?va = q"
    using page_of_inj [OF v vpath_digits [OF v] vq] assms(4) by simp
  have 2: "\<forall>l < TABLES_DEPTH c. indexAtLevel c ?va l = q ! l"
    using nth_digits [of _ c ?va] dq by simp
  have 3: "walk c va False s = Some (f, s) \<longleftrightarrow> drop_bit (OFFSET_WIDTH c) va = page_of c q"
    if va: "va < VIRTUAL_MEMORY_SIZE c" for va
  proof -
    have "walk c va False s = Some (f, s) \<longleftrightarrow> node c s (digits c va) f"
      using vpath_digits [OF v, of va] by (auto simp: walk_nocreate node_def)
    also have "\<dots> \<longleftrightarrow> digits c va = q"
    proof
      assume "node c s (digits c va) f"
      then show "digits c va = q" using assms(3) by (rule tree_wf_unique [OF wf])
    next
      assume "digits c va = q"
      then show "node c s (digits c va) f" using assms(3) by simp
    qed
    also have "\<dots> \<longleftrightarrow> page_of c (digits c va) = page_of c q"
    proof
      assume "page_of c (digits c va) = page_of c q"
      then show "digits c va = q"
        using page_of_inj [OF v vpath_digits [OF v] vq] assms(4) by simp
    qed simp
    finally show ?thesis using page_of_digits [OF v va] by simp
  qed
  have d: "0 < TABLES_DEPTH c" using v by (simp add: valid_config_def)
  have "q \<noteq> []" using assms(4) d by auto
  then obtain g where g: "node c s (butlast q) g"
    using node_prefix [of c s "butlast q" "[last q]" f] assms(3) by auto
  have "\<lparr>leafPage = page_of c q, leafFrame = f, leafParent = g, leafRow = last q\<rparr> \<in> set (leaves c s 0 0 0)"
    unfolding set_leaves_root [OF d] using assms(3,4) g by auto
  then have 4: "\<exists>x \<in> set (leaves c s 0 0 0). leafFrame x = f \<and> leafPage x = page_of c q"
    by (intro bexI [of _ "\<lparr>leafPage = page_of c q, leafFrame = f, leafParent = g, leafRow = last q\<rparr>"]) auto
  have three: "\<forall>va < VIRTUAL_MEMORY_SIZE c.
          walk c va False s = Some (f, s) \<longleftrightarrow> drop_bit (OFFSET_WIDTH c) va = page_of c q"
    using 3 by simp
  have 5: "\<forall>t pf. victimFrame (scan c s 0 0 0 t pf scanInfo_init) = f \<longrightarrow>
          victimPage (scan c s 0 0 0 t pf scanInfo_init) = page_of c q
          \<and> victimRowInParent (scan c s 0 0 0 t pf scanInfo_init) = last q
          \<and> node c s (butlast q) (victimParent (scan c s 0 0 0 t pf scanInfo_init))"
    using scan_victim_leaf [OF v wf assms(3,4)] by blast
  have 6: "\<forall>pf row t isLeaf s'. allocateFrame c pf row t isLeaf s = (f, s') \<longrightarrow>
          (\<exists>P. node c s (butlast q) P
             \<and> s' = clearFrame c f isLeaf
                      (PMwrite (phys c P (last q)) 0 (PMevict c f (page_of c q) s)))"
    using alloc_returns_leaf [OF v wf assms(3,4)] by blast
  have 7: "level + 1 = TABLES_DEPTH c \<and> PMread (phys c frame (indexAtLevel c va0 level)) s = 0 \<longrightarrow>
          (\<exists>X s1. allocateFrame c frame (indexAtLevel c va0 level) (drop_bit (OFFSET_WIDTH c) va0) True s
                     = (X, s1)
             \<and> walk_level c va0 True level (frame, s)
                 = Some (X, PMwrite (phys c frame (indexAtLevel c va0 level)) (ucast X)
                              (PMrestore c X (page_of c (digits c va0)) s1))
             \<and> node c (PMwrite (phys c frame (indexAtLevel c va0 level)) (ucast X)
                              (PMrestore c X (page_of c (digits c va0)) s1)) (digits c va0) X)"
    using restore_page [OF v assms(2)] by blast
  show ?thesis by (intro conjI pg 2 three 4 5 6 7)
qed

section \<open>Claims on the allocator\<close>

lemma alloc_ne_parent:
  assumes v: "valid_config c" and wf: "tree_wf c s"
    and n: "node c s p F" "length p < TABLES_DEPTH c"
  shows "fst (allocateFrame c F row t isLeaf s) \<noteq> F"
    and "F < maxFrame (scan c s 0 0 0 t F scanInfo_init) + 1"
    and "victimFrame (scan c s 0 0 0 t F scanInfo_init) \<noteq> F"
proof -
  let ?info = "scan c s 0 0 0 t F scanInfo_init"
  let ?L = "leaves c s 0 0 0"
  have d: "0 < TABLES_DEPTH c" using v by (simp add: valid_config_def)
  have Fr: "F < NUM_FRAMES c" using tree_wf_range [OF wf n(1)] .
  have fresh: "F < maxFrame ?info + 1"
  proof -
    obtain dsM where dsM: "node c s dsM (maxFrame ?info)" using maxFrame_scan_root [OF d, of s t F] by blast
    have le: "F \<le> maxFrame ?info" using maxFrame_scan_root [OF d, of s t F] n(1) by blast
    have "unat (maxFrame ?info) < unat (NUM_FRAMES c)"
      using tree_wf_range [OF wf dsM] by (simp add: word_less_nat_alt)
    moreover have "unat (NUM_FRAMES c) \<le> 2 ^ 31" using v by (simp add: valid_config_def)
    ultimately have "unat (maxFrame ?info) + unat (1::u64) < 2 ^ LENGTH(64)" by simp
    then have "unat (maxFrame ?info + 1) = unat (maxFrame ?info) + 1"
      by (simp add: unat_add_lem [THEN iffD1])
    then have "maxFrame ?info < maxFrame ?info + 1" by (simp add: word_less_nat_alt)
    then show ?thesis using le by simp
  qed
  have victim: "victimFrame ?info \<noteq> F"
  proof (cases "\<forall>x \<in> set ?L. leaf_dist c t x \<le> fst (vproj scanInfo_init)")
    case True
    then have "vproj ?info = vproj scanInfo_init"
      using fold_vstep [of ?L c t "vproj scanInfo_init"] vproj_scan_gen(1) [of c s 0 0 0 t F scanInfo_init]
      by simp
    then have "victimFrame ?info = UINT64_MAX" by (simp add: vproj_def scanInfo_init_def)
    then show ?thesis using not_UINT64_MAX [OF Fr] by simp
  next
    case False
    then have "\<exists>i < length ?L. fold (vstep c t) ?L (vproj scanInfo_init) = leaf_victim c t (?L ! i)
           \<and> fst (vproj scanInfo_init) < leaf_dist c t (?L ! i)
           \<and> (\<forall>j < length ?L. leaf_dist c t (?L ! j) \<le> leaf_dist c t (?L ! i))
           \<and> (\<forall>j < i. leaf_dist c t (?L ! j) < leaf_dist c t (?L ! i))"
      using fold_vstep [of ?L c t "vproj scanInfo_init"] by (simp only: if_False)
    then obtain i where i0: "i < length ?L"
      "fold (vstep c t) ?L (vproj scanInfo_init) = leaf_victim c t (?L ! i)" by blast
    have i: "i < length ?L" "vproj ?info = leaf_victim c t (?L ! i)"
      using i0 vproj_scan_gen(1) [of c s 0 0 0 t F scanInfo_init] by simp_all
    have "?L ! i \<in> set ?L" using i(1) by simp
    then obtain q where q: "length q = TABLES_DEPTH c" "node c s q (leafFrame (?L ! i))"
      unfolding set_leaves_root [OF d] by blast
    have "victimFrame ?info = leafFrame (?L ! i)" using i(2) by (simp add: vproj_def leaf_victim_def)
    then show ?thesis using leaf_frame_ne_table [OF wf q(2,1) n] by simp
  qed
  have "maxFrame ?info + 1 \<noteq> F" using fresh by simp
  then show "fst (allocateFrame c F row t isLeaf s) \<noteq> F"
    using victim by (simp add: allocateFrame_def Let_def)
  show "F < maxFrame ?info + 1" by (rule fresh)
  show "victimFrame ?info \<noteq> F" by (rule victim)
qed

text \<open>
  Claim C10. In every state of a run, a call of the allocator for a table \<open>parentFrame\<close>
  of the tree (the root, or a table referenced by an entry of the tree) returns another
  frame, on each of the three paths, whatever the row, the target page and the kind asked
  for: the frame after the high-water mark is above \<open>parentFrame\<close>, and the victim is
  not \<open>parentFrame\<close>. The table the walker is at, when it calls the allocator, is such a
  table.
\<close>

theorem allocated_frame_not_parent:
  assumes "valid_config c" and "walking c va level frame s"
    and "node c s p parentFrame" and "length p < TABLES_DEPTH c"
  shows "fst (allocateFrame c parentFrame row t isLeaf s) \<noteq> parentFrame
    \<and> parentFrame < maxFrame (scan c s 0 0 0 t parentFrame scanInfo_init) + 1
    \<and> victimFrame (scan c s 0 0 0 t parentFrame scanInfo_init) \<noteq> parentFrame
    \<and> (level < TABLES_DEPTH c \<longrightarrow> fst (allocateFrame c frame row t isLeaf s) \<noteq> frame)"
proof -
  note k = walking_inv [OF assms(1,2)]
  note wf = tree_inv_wf [OF k(1)]
  have "fst (allocateFrame c frame row t isLeaf s) \<noteq> frame" if "level < TABLES_DEPTH c"
  proof -
    have "length (take level (digits c va)) < TABLES_DEPTH c" using that by simp
    then show ?thesis using alloc_ne_parent(1) [OF assms(1) wf k(2)] by blast
  qed
  then show ?thesis using alloc_ne_parent [OF assms(1) wf assms(3,4)] by blast
qed

lemma empty_iff_candidate:
  assumes v: "valid_config c" and wf: "tree_wf c s"
  shows "emptyFrame (scan c s 0 0 0 t pf scanInfo_init) \<noteq> UINT64_MAX \<longleftrightarrow> (\<exists>ds f. candidate c s pf ds f)"
  using scan_root_empty [OF v wf, of t pf] unfolding resolved_def by blast

lemma greatest_is_maxFrame:
  assumes "0 < TABLES_DEPTH c"
    and "\<forall>ds g. node c s ds g \<longrightarrow> g \<le> M" and "\<exists>ds. node c s ds M"
  shows "M = maxFrame (scan c s 0 0 0 t pf scanInfo_init)"
proof -
  note k = maxFrame_scan_root [OF assms(1), of s t pf]
  have "M \<le> maxFrame (scan c s 0 0 0 t pf scanInfo_init)" using k assms(3) by blast
  moreover have "maxFrame (scan c s 0 0 0 t pf scanInfo_init) \<le> M" using k assms(2) by blast
  ultimately show ?thesis by simp
qed

text \<open>
  Claim C3. In every call of the allocator for an empty entry of a table \<open>frame\<close> of a
  well-formed tree (\<open>fault_ctx\<close>; every call the walker makes in a run is one, by
  \<open>walker_call_ctx\<close>), with \<open>M\<close> the greatest frame number of the tree (the high-water
  mark): if the tree has an empty table that is neither the root nor the table being
  populated, such a table is returned, detached from its parent, and nothing is evicted,
  whatever \<open>M\<close> is, also when \<open>M + 1 < NUM_FRAMES\<close>; otherwise, if \<open>M + 1 < NUM_FRAMES\<close>,
  the frame \<open>M + 1\<close> is returned and the tree is not touched; otherwise a data page of the
  tree is evicted and unlinked, and its frame is returned. The swap store changes in the
  last case only.
\<close>

theorem allocation_priority:
  assumes "fault_ctx c s p frame row t"
    and "allocateFrame c frame row t isLeaf s = (X, s')"
  shows "\<exists>M. (\<forall>ds g. node c s ds g \<longrightarrow> g \<le> M) \<and> (\<exists>ds. node c s ds M)
     \<and> ((\<exists>ds f. candidate c s frame ds f) \<longrightarrow>
           (\<exists>kp r P. candidate c s frame (kp @ [r]) X \<and> node c s kp P
                    \<and> s' = clearFrame c X isLeaf (PMwrite (phys c P r) 0 s)))
     \<and> (\<not> (\<exists>ds f. candidate c s frame ds f) \<and> M + 1 < NUM_FRAMES c \<longrightarrow>
           X = M + 1 \<and> s' = clearFrame c X isLeaf s)
     \<and> (\<not> (\<exists>ds f. candidate c s frame ds f) \<and> \<not> M + 1 < NUM_FRAMES c \<longrightarrow>
           (\<exists>q P. length q = TABLES_DEPTH c \<and> node c s q X \<and> node c s (butlast q) P
                 \<and> s' = clearFrame c X isLeaf
                          (PMwrite (phys c P (last q)) 0 (PMevict c X (page_of c q) s))))
     \<and> (swap s' \<noteq> swap s \<longrightarrow>
           \<not> (\<exists>ds f. candidate c s frame ds f) \<and> \<not> M + 1 < NUM_FRAMES c)"
proof -
  let ?info = "scan c s 0 0 0 t frame scanInfo_init"
  let ?M = "maxFrame ?info"
  let ?C = "\<exists>ds f. candidate c s frame ds f"
  note ctx = assms(1)
  have v: "valid_config c" using ctx by (simp add: fault_ctx_def)
  have wf: "tree_wf c s" using ctx tree_inv_wf by (auto simp: fault_ctx_def)
  have d: "0 < TABLES_DEPTH c" using v by (simp add: valid_config_def)
  have M: "\<forall>ds g. node c s ds g \<longrightarrow> g \<le> ?M" "\<exists>ds. node c s ds ?M"
    using maxFrame_scan_root [OF d, of s t frame] by blast+
  have ec: "emptyFrame ?info \<noteq> UINT64_MAX \<longleftrightarrow> ?C" using empty_iff_candidate [OF v wf] .
  have 1: "\<exists>kp r P. candidate c s frame (kp @ [r]) X \<and> node c s kp P
                    \<and> s' = clearFrame c X isLeaf (PMwrite (phys c P r) 0 s)" if "?C"
  proof -
    have "emptyFrame ?info \<noteq> UINT64_MAX" using that ec by simp
    then show ?thesis using alloc_reuse [OF ctx, of isLeaf] assms(2) by auto
  qed
  have 2: "X = ?M + 1 \<and> s' = clearFrame c X isLeaf s" if "\<not> ?C" "?M + 1 < NUM_FRAMES c"
  proof -
    have "emptyFrame ?info = UINT64_MAX" using that(1) ec by simp
    then show ?thesis using alloc_fresh [OF ctx _ that(2), of isLeaf] assms(2) by auto
  qed
  have 3: "\<exists>q P. length q = TABLES_DEPTH c \<and> node c s q X \<and> node c s (butlast q) P
                 \<and> s' = clearFrame c X isLeaf
                          (PMwrite (phys c P (last q)) 0 (PMevict c X (page_of c q) s))"
    if nc: "\<not> ?C" and nm: "\<not> ?M + 1 < NUM_FRAMES c"
  proof -
    let ?L = "leaves c s 0 0 0"
    have e: "emptyFrame ?info = UINT64_MAX" using nc ec by simp
    obtain i where i: "i < length ?L"
      "allocateFrame c frame row t isLeaf s
             = (leafFrame (?L ! i),
                clearFrame c (leafFrame (?L ! i)) isLeaf
                  (PMwrite (phys c (leafParent (?L ! i)) (leafRow (?L ! i))) 0
                     (PMevict c (leafFrame (?L ! i)) (leafPage (?L ! i)) s)))"
      using alloc_evict [OF ctx e nm, of isLeaf] by blast
    have "?L ! i \<in> set ?L" using i(1) by simp
    then obtain q where q: "length q = TABLES_DEPTH c" "node c s (butlast q) (leafParent (?L ! i))"
      "node c s q (leafFrame (?L ! i))" "leafRow (?L ! i) = last q" "leafPage (?L ! i) = page_of c q"
      unfolding set_leaves_root [OF d] by blast
    have "leafFrame (?L ! i) = X"
      "s' = clearFrame c X isLeaf (PMwrite (phys c (leafParent (?L ! i)) (last q)) 0 (PMevict c X (page_of c q) s))"
      using i(2) assms(2) q(4,5) by auto
    then show ?thesis using q(1,2,3) by blast
  qed
  have 4: "\<not> ?C \<and> \<not> ?M + 1 < NUM_FRAMES c" if sw: "swap s' \<noteq> swap s"
  proof (rule ccontr)
    assume "\<not> (\<not> ?C \<and> \<not> ?M + 1 < NUM_FRAMES c)"
    then consider "?C" | "\<not> ?C" "?M + 1 < NUM_FRAMES c" by blast
    then have "swap s' = swap s"
    proof cases
      case 1
      then show ?thesis using \<open>?C \<Longrightarrow> \<exists>kp r P. candidate c s frame (kp @ [r]) X \<and> node c s kp P
                    \<and> s' = clearFrame c X isLeaf (PMwrite (phys c P r) 0 s)\<close> by auto
    next
      case 2
      then show ?thesis using \<open>\<not> ?C \<Longrightarrow> ?M + 1 < NUM_FRAMES c \<Longrightarrow> X = ?M + 1 \<and> s' = clearFrame c X isLeaf s\<close>
        by auto
    qed
    then show False using sw by simp
  qed
  show ?thesis
    by (rule exI [of _ ?M]) (use M 1 2 3 4 in blast)
qed


lemma alloc_frames_nonzero:
  assumes v: "valid_config c" and wf: "tree_wf c s"
  shows "emptyFrame (scan c s 0 0 0 t pf scanInfo_init) \<noteq> 0"
    and "maxFrame (scan c s 0 0 0 t pf scanInfo_init) + 1 \<noteq> 0"
    and "victimFrame (scan c s 0 0 0 t pf scanInfo_init) \<noteq> 0"
proof -
  let ?info = "scan c s 0 0 0 t pf scanInfo_init"
  let ?L = "leaves c s 0 0 0"
  have d: "0 < TABLES_DEPTH c" using v by (simp add: valid_config_def)
  show "emptyFrame ?info \<noteq> 0"
    using scan_root_empty [OF v wf, of t pf]
    unfolding resolved_def candidate_def by (auto simp: UINT64_MAX_def)
  show "maxFrame ?info + 1 \<noteq> 0"
  proof -
    obtain dsM where dsM: "node c s dsM (maxFrame ?info)" using maxFrame_scan_root [OF d, of s t pf] by blast
    have "unat (maxFrame ?info) < unat (NUM_FRAMES c)"
      using tree_wf_range [OF wf dsM] by (simp add: word_less_nat_alt)
    moreover have "unat (NUM_FRAMES c) \<le> 2 ^ 31" using v by (simp add: valid_config_def)
    ultimately have "unat (maxFrame ?info) + unat (1::u64) < 2 ^ LENGTH(64)" by simp
    then have "unat (maxFrame ?info + 1) = unat (maxFrame ?info) + 1"
      by (simp add: unat_add_lem [THEN iffD1])
    then show ?thesis by (metis Suc_eq_plus1 nat.distinct(1) unat_0)
  qed
  show "victimFrame ?info \<noteq> 0"
  proof (cases "\<forall>x \<in> set ?L. leaf_dist c t x \<le> fst (vproj scanInfo_init)")
    case True
    then have "vproj ?info = vproj scanInfo_init"
      using fold_vstep [of ?L c t "vproj scanInfo_init"] vproj_scan_gen(1) [of c s 0 0 0 t pf scanInfo_init]
      by simp
    then have "victimFrame ?info = UINT64_MAX" by (simp add: vproj_def scanInfo_init_def)
    then show ?thesis by (simp add: UINT64_MAX_def)
  next
    case False
    then have "\<exists>i < length ?L. fold (vstep c t) ?L (vproj scanInfo_init) = leaf_victim c t (?L ! i)
           \<and> fst (vproj scanInfo_init) < leaf_dist c t (?L ! i)
           \<and> (\<forall>j < length ?L. leaf_dist c t (?L ! j) \<le> leaf_dist c t (?L ! i))
           \<and> (\<forall>j < i. leaf_dist c t (?L ! j) < leaf_dist c t (?L ! i))"
      using fold_vstep [of ?L c t "vproj scanInfo_init"] by (simp only: if_False)
    then obtain i where i0: "i < length ?L"
      "fold (vstep c t) ?L (vproj scanInfo_init) = leaf_victim c t (?L ! i)" by blast
    have i: "vproj ?info = leaf_victim c t (?L ! i)"
      using i0 vproj_scan_gen(1) [of c s 0 0 0 t pf scanInfo_init] by simp
    have "?L ! i \<in> set ?L" using i0(1) by simp
    then obtain q where q: "length q = TABLES_DEPTH c" "node c s q (leafFrame (?L ! i))"
      unfolding set_leaves_root [OF d] by blast
    have "q \<noteq> []" using q(1) d by auto
    then have "leafFrame (?L ! i) \<noteq> 0" using node_frame_0 [OF wf] q(2) by auto
    then show ?thesis using i by (simp add: vproj_def leaf_victim_def)
  qed
qed

text \<open>
  Claim C5. Whenever the walker is at a table \<open>frame\<close> in a run, none of the three frames
  the allocator chooses from is frame 0: not the empty table found by the scan (the frame
  it detaches), not the frame after the high-water mark, not the victim (the frame it
  evicts); so the frame it returns is not frame 0.
\<close>

theorem root_invariance:
  assumes "valid_config c" and "walking c va level frame s"
  shows "emptyFrame (scan c s 0 0 0 t frame scanInfo_init) \<noteq> 0
    \<and> maxFrame (scan c s 0 0 0 t frame scanInfo_init) + 1 \<noteq> 0
    \<and> victimFrame (scan c s 0 0 0 t frame scanInfo_init) \<noteq> 0
    \<and> fst (allocateFrame c frame row t isLeaf s) \<noteq> 0"
proof -
  have wf: "tree_wf c s" using walking_inv(1) [OF assms] by (rule tree_inv_wf)
  note k = alloc_frames_nonzero [OF assms(1) wf, of t frame]
  have "fst (allocateFrame c frame row t isLeaf s) \<noteq> 0"
    using k by (simp add: allocateFrame_def Let_def)
  then show ?thesis using k by simp
qed

lemma alloc_table_zero:
  assumes "allocateFrame c pf row t False s = (X, s')" "i < PAGE_SIZE c"
  shows "PMread (phys c X i) s' = 0"
  using assms PMread_clearFrame_in [of i c]
  by (auto simp: allocateFrame_def Let_def split: if_splits)

text \<open>
  Claim C8. A frame asked for as a table comes back with all its words zero, in any state
  and on each path (the last action of each is \<^verbatim>\<open>clearFrame\<close>). A frame asked for as a
  leaf, in a call the walker makes, comes back with the words it had.
\<close>

theorem clearing_policy:
  "(allocateFrame c pf row t False s = (X, s') \<longrightarrow> (\<forall>i < PAGE_SIZE c. PMread (phys c X i) s' = 0))
   \<and> (valid_config c \<and> walker_call c va level frame s
        \<and> allocateFrame c frame (indexAtLevel c va level) (drop_bit (OFFSET_WIDTH c) va) True s = (Y, s'')
       \<longrightarrow> (\<forall>i < PAGE_SIZE c. PMread (phys c Y i) s'' = PMread (phys c Y i) s))"
proof (intro conjI impI allI)
  fix i assume "allocateFrame c pf row t False s = (X, s')" "i < PAGE_SIZE c"
  then show "PMread (phys c X i) s' = 0" by (rule alloc_table_zero)
next
  fix i
  assume a: "valid_config c \<and> walker_call c va level frame s
        \<and> allocateFrame c frame (indexAtLevel c va level) (drop_bit (OFFSET_WIDTH c) va) True s = (Y, s'')"
    and i: "i < PAGE_SIZE c"
  let ?row = "indexAtLevel c va level" and ?t = "drop_bit (OFFSET_WIDTH c) va"
  let ?info = "scan c s 0 0 0 ?t frame scanInfo_init"
  have v: "valid_config c" using a by simp
  have ctx: "fault_ctx c s (take level (digits c va)) frame ?row ?t"
    using walker_call_ctx a by blast
  have wf: "tree_wf c s" using ctx tree_inv_wf by (auto simp: fault_ctx_def)
  have d: "0 < TABLES_DEPTH c" using v by (simp add: valid_config_def)
  have moved: "PMread (phys c Y i) (clearFrame c Y True (PMwrite (phys c P r) 0 A)) = PMread (phys c Y i) s"
    if "node c s (kp @ [r]) Y" "node c s kp P" "ram A = ram s" for kp r P A
  proof -
    have "P \<noteq> Y" using tree_wf_unique [OF wf that(2), of "kp @ [r]"] that(1) by auto
    moreover have "r < PAGE_SIZE c" using that(1) by (auto simp: node_snoc)
    ultimately have "phys c Y i \<noteq> phys c P r"
      using phys_inj [OF v tree_wf_range [OF wf that(1)] i tree_wf_range [OF wf that(2)]] by simp
    then show ?thesis using that(3) by (simp add: clearFrame_def PMread_def)
  qed
  consider (reuse) "emptyFrame ?info \<noteq> UINT64_MAX"
    | (fresh) "emptyFrame ?info = UINT64_MAX" "maxFrame ?info + 1 < NUM_FRAMES c"
    | (evict) "emptyFrame ?info = UINT64_MAX" "\<not> maxFrame ?info + 1 < NUM_FRAMES c"
    by blast
  then show "PMread (phys c Y i) s'' = PMread (phys c Y i) s"
  proof cases
    case reuse
    obtain kp r P Z where k: "candidate c s frame (kp @ [r]) Z" "node c s kp P"
      "allocateFrame c frame ?row ?t True s = (Z, clearFrame c Z True (PMwrite (phys c P r) 0 s))"
      using alloc_reuse [OF ctx reuse, of True] by blast
    have "Z = Y" "s'' = clearFrame c Y True (PMwrite (phys c P r) 0 s)" using k(3) a by auto
    then show ?thesis using moved [of kp r P s] k(1,2) by (simp add: candidate_def)
  next
    case fresh
    have "s'' = clearFrame c Y True s" using alloc_fresh [OF ctx fresh, of True] a by auto
    then show ?thesis by (simp add: clearFrame_def)
  next
    case evict
    let ?L = "leaves c s 0 0 0"
    obtain j where j: "j < length ?L"
      "allocateFrame c frame ?row ?t True s
             = (leafFrame (?L ! j),
                clearFrame c (leafFrame (?L ! j)) True
                  (PMwrite (phys c (leafParent (?L ! j)) (leafRow (?L ! j))) 0
                     (PMevict c (leafFrame (?L ! j)) (leafPage (?L ! j)) s)))"
      using alloc_evict [OF ctx evict, of True] by blast
    have "?L ! j \<in> set ?L" using j(1) by simp
    then obtain q where q: "length q = TABLES_DEPTH c" "node c s (butlast q) (leafParent (?L ! j))"
      "node c s q (leafFrame (?L ! j))" "leafRow (?L ! j) = last q"
      unfolding set_leaves_root [OF d] by blast
    have "q \<noteq> []" using q(1) d by auto
    then have qq: "butlast q @ [last q] = q" by simp
    have e: "leafFrame (?L ! j) = Y"
      "s'' = clearFrame c Y True (PMwrite (phys c (leafParent (?L ! j)) (last q)) 0
                     (PMevict c Y (leafPage (?L ! j)) s))"
      using j(2) a q(4) by auto
    show ?thesis
      unfolding e(2)
      using moved [of "butlast q" "last q" "leafParent (?L ! j)" "PMevict c Y (leafPage (?L ! j)) s"]
        q(2,3) qq e(1) by simp
  qed
qed

section \<open>The claims in an example run\<close>

lemma empty_table_code [code]:
  "empty_table c s f \<longleftrightarrow> (\<forall>r \<in> set (rows c). PMread (phys c f r) s = 0)"
  by (simp add: empty_table_def set_rows)

lemma valid_example: "valid_config example_config"
  by (simp add: valid_config_def example_config_def)

lemma VMS_example: "VIRTUAL_MEMORY_SIZE example_config = 64"
  by (simp add: VIRTUAL_MEMORY_SIZE_def NUM_PAGES_def PAGE_SIZE_def example_config_def)

lemma reachable_example: "reachable example_config example_state"
proof -
  obtain r s' where w: "VMwrite example_config 0 7 (VMinitialize example_config init_state) = Some (r, s')"
    using VMwrite_total by blast
  then have "step example_config (Write 0 7) (VMinitialize example_config init_state) = Some example_state"
    by (simp add: step_def example_state_def)
  then show ?thesis using reachable.step [OF reachable.init] by blast
qed

lemma walking_example: "walking example_config 16 0 0 example_state"
  unfolding walking_def using reachable_example
  by (intro exI [of _ example_state]) (simp add: VMS_example walk_levels_def)

lemma example_row: "PMread (phys example_config 0 (indexAtLevel example_config 16 0)) example_state = 0"
  by code_simp

lemma walker_call_example: "walker_call example_config 16 0 0 example_state"
  unfolding walker_call_def using walking_example example_row
  by (simp add: example_config_def)

lemma example_scan:
  "emptyFrame (scan example_config example_state 0 0 0 4 0 scanInfo_init) = UINT64_MAX"
  "maxFrame (scan example_config example_state 0 0 0 4 0 scanInfo_init) = 2"
  by code_simp+

lemma example_target:
  "indexAtLevel example_config 16 0 = 1" "drop_bit (OFFSET_WIDTH example_config) (16 :: u64) = 4"
  by code_simp+

lemma D_example: "0 < TABLES_DEPTH example_config" "TABLES_DEPTH example_config = 2"
  by (simp_all add: example_config_def)

lemma wf_example: "tree_wf example_config example_state"
  using reachable_inv [OF valid_example reachable_example] by (rule tree_inv_wf)

lemma example_no_candidate: "\<not> (\<exists>ds f. candidate example_config example_state 0 ds f)"
  using empty_iff_candidate [OF valid_example wf_example, of 4 0] example_scan(1) by simp

lemma example_full:
  "\<forall>M. (\<forall>ds g. node example_config example_state ds g \<longrightarrow> g \<le> M)
        \<and> (\<exists>ds. node example_config example_state ds M)
       \<longrightarrow> \<not> M + 1 < NUM_FRAMES example_config"
proof (intro allI impI)
  fix M
  assume a: "(\<forall>ds g. node example_config example_state ds g \<longrightarrow> g \<le> M)
        \<and> (\<exists>ds. node example_config example_state ds M)"
  have b: "(\<forall>ds g. node example_config example_state ds g \<longrightarrow> g \<le> 2)
        \<and> (\<exists>ds. node example_config example_state ds 2)"
    using maxFrame_scan_root [OF D_example(1), of example_state 4 0] example_scan(2) by simp
  have "M \<le> 2" "2 \<le> M" using a b by blast+
  then have "M = 2" by simp
  then show "\<not> M + 1 < NUM_FRAMES example_config" by (simp add: example_config_def)
qed

lemma example_nodes:
  "node example_config example_state [0] 1" "node example_config example_state [0, 0] 2"
  by code_simp+

lemma example_entries:
  "PMread (phys example_config 0 0) example_state = 1"
  "PMread (phys example_config 1 0) example_state = 2"
  by code_simp+

theorem vm_round_trip_witness:
  "\<exists>s1 s2 s3. VMwrite example_config 5 7 example_state = Some (1, s1)
      \<and> run example_config [Read 20, Write 16 9] s1 = Some s2
      \<and> VMread example_config 5 s2 = Some (1, Some 7, s3)"
  using vm_round_trip [OF valid_example reachable_example, of 5 "[Read 20, Write 16 9]" 7]
  by (simp add: VMS_example)

theorem root_invariance_witness:
  "emptyFrame (scan example_config example_state 0 0 0 4 0 scanInfo_init) \<noteq> 0
    \<and> maxFrame (scan example_config example_state 0 0 0 4 0 scanInfo_init) + 1 \<noteq> 0
    \<and> victimFrame (scan example_config example_state 0 0 0 4 0 scanInfo_init) \<noteq> 0
    \<and> fst (allocateFrame example_config 0 1 4 False example_state) \<noteq> 0"
  by (rule root_invariance [OF valid_example walking_example])

theorem frame_uniqueness_witness:
  "PMread (phys example_config 0 0) example_state \<noteq> PMread (phys example_config 1 0) example_state"
proof -
  have "PMread (phys example_config 0 0) example_state \<noteq> 0" by (simp add: example_entries)
  moreover have "((0 :: u64), (0 :: u64)) \<noteq> (1, 0)" by simp
  moreover have "(0 :: u64) < PAGE_SIZE example_config"
    by (simp add: PAGE_SIZE_def example_config_def)
  moreover have "length ([] :: u64 list) < TABLES_DEPTH example_config"
    "length [0 :: u64] < TABLES_DEPTH example_config" by (simp_all add: example_config_def)
  moreover have "node example_config example_state [] 0" by simp
  ultimately show ?thesis
    using frame_uniqueness [OF valid_example walking_example, of "[]" 0 0 "[0]" 1 0] example_nodes(1)
    by blast
qed

theorem clearing_policy_witness:
  "PMread (phys example_config (fst (allocateFrame example_config 0 1 4 False example_state)) 3)
      (snd (allocateFrame example_config 0 1 4 False example_state)) = 0
   \<and> PMread (phys example_config (fst (allocateFrame example_config 0 1 4 True example_state)) 3)
      (snd (allocateFrame example_config 0 1 4 True example_state))
     = PMread (phys example_config (fst (allocateFrame example_config 0 1 4 True example_state)) 3)
         example_state"
proof -
  let ?A = "allocateFrame example_config 0 1 4 False example_state"
  let ?B = "allocateFrame example_config 0 1 4 True example_state"
  have b: "allocateFrame example_config 0 (indexAtLevel example_config 16 0)
          (drop_bit (OFFSET_WIDTH example_config) 16) True example_state = (fst ?B, snd ?B)"
    by (simp add: example_target)
  have a: "?A = (fst ?A, snd ?A)" by simp
  have i: "(3 :: u64) < PAGE_SIZE example_config" by (simp add: PAGE_SIZE_def example_config_def)
  note k = clearing_policy [of example_config 0 1 4 example_state "fst ?A" "snd ?A" 16 0 0 "fst ?B" "snd ?B"]
  show ?thesis using k a b i valid_example walker_call_example by blast
qed

theorem allocated_frame_not_parent_witness:
  "fst (allocateFrame example_config 1 1 4 False example_state) \<noteq> 1
   \<and> fst (allocateFrame example_config 0 1 4 False example_state) \<noteq> 0"
proof -
  have "length [0 :: u64] < TABLES_DEPTH example_config" "0 < TABLES_DEPTH example_config"
    by (simp_all add: example_config_def)
  then show ?thesis
    using allocated_frame_not_parent [OF valid_example walking_example example_nodes(1), of 1 4 False]
    by blast
qed

section \<open>Further example states\<close>



lemma walk_first_hit:
  assumes "PMread (phys c 0 (indexAtLevel c va 0)) s \<noteq> 0"
  shows "walk_levels c va True [0 ..< 1] (0, s)
           = Some (scast (PMread (phys c 0 (indexAtLevel c va 0)) s), s)"
  using walk_levels_upt_Suc [of c va True 0 "(0, s)"] walk_level_hit [OF assms, of True] by simp

subsection \<open>An empty table while a frame is unused\<close>

lemma reuse_eval:
  "fst (the (walk_levels example_config 0 True [0 ..< 1] (0, VMinitialize example_config init_state))) = 1"
  "PMread (phys example_config 0 1) reuse_state = 0"
  "candidate example_config reuse_state 0 [0] 1"
  "maxFrame (scan example_config reuse_state 0 0 0 4 0 scanInfo_init) = 1"
  "fst (allocateFrame example_config 0 1 4 False reuse_state) = 1"
  "page_of example_config [1, 0] = 4"
  by code_simp+

lemma walking_reuse: "walking example_config 0 1 1 reuse_state"
proof -
  obtain fs where fs: "walk_levels example_config 0 True [0 ..< 1] (0, VMinitialize example_config init_state) = Some fs"
    using walk_levels_create by blast
  then have "fs = (1, reuse_state)" using reuse_eval(1) by (cases fs) (simp add: reuse_state_def)
  then have w: "walk_levels example_config 0 True [0 ..< 1] (0, VMinitialize example_config init_state)
      = Some (1, reuse_state)" using fs by simp
  have "(0 :: u64) < VIRTUAL_MEMORY_SIZE example_config" "1 \<le> TABLES_DEPTH example_config"
    by (simp_all add: VMS_example D_example(2))
  then show ?thesis
    unfolding walking_def using w reachable.init [of example_config init_state]
    by (intro exI [of _ "VMinitialize example_config init_state"]) simp
qed

lemma fault_ctx_reuse: "fault_ctx example_config reuse_state [] 0 1 4"
proof -
  have "vpath example_config [1, 0]" "length [1 :: u64, 0] = TABLES_DEPTH example_config"
    by (simp_all add: vpath_def PAGE_SIZE_def example_config_def)
  then have "vpath example_config [1, 0] \<and> length [1 :: u64, 0] = TABLES_DEPTH example_config
      \<and> prefix ([] @ [1]) [1 :: u64, 0] \<and> 4 = page_of example_config [1, 0]"
    using reuse_eval(6) by simp
  then have "\<exists>q0. vpath example_config q0 \<and> length q0 = TABLES_DEPTH example_config
      \<and> prefix ([] @ [1]) q0 \<and> 4 = page_of example_config q0" by blast
  moreover have "(1 :: u64) < PAGE_SIZE example_config" by (simp add: PAGE_SIZE_def example_config_def)
  ultimately show ?thesis
    unfolding fault_ctx_def
    using valid_example walking_inv(1) [OF valid_example walking_reuse] reuse_eval(2) D_example(1)
    by simp
qed

subsection \<open>The first fault of a run\<close>

lemma init_eval:
  "PMread (phys example_config 0 (indexAtLevel example_config 0 0)) (VMinitialize example_config init_state) = 0"
  "emptyFrame (scan example_config (VMinitialize example_config init_state) 0 0 0 0 0 scanInfo_init) = UINT64_MAX"
  "maxFrame (scan example_config (VMinitialize example_config init_state) 0 0 0 0 0 scanInfo_init) = 0"
  "indexAtLevel example_config 0 0 = 0" "drop_bit (OFFSET_WIDTH example_config) (0 :: u64) = 0"
  by code_simp+

lemma walker_call_init: "walker_call example_config 0 0 0 (VMinitialize example_config init_state)"
  unfolding walker_call_def
  using reachable_walking [OF valid_example reachable.init [of example_config init_state]] init_eval(1) D_example(1)
  by simp

subsection \<open>Two pages at the same distance\<close>







subsection \<open>A page whose rows differ\<close>

lemma path_eval:
  "page_of example_config [1, 2] = 6"
  "node example_config path_state [1, 2] 2"
  "PMread (phys example_config 0 (indexAtLevel example_config 16 0)) path_state = 1"
  "PMread (phys example_config 1 (indexAtLevel example_config 16 1)) path_state = 0"
  "victimFrame (scan example_config path_state 0 0 0 4 1 scanInfo_init) = 2"
  "fst (allocateFrame example_config 1 0 4 True path_state) = 2"
  "digits example_config 16 = [1, 0]"
  "indexAtLevel example_config 16 1 = 0"
  "drop_bit (OFFSET_WIDTH example_config) (27 :: u64) = 6"
  "page_of example_config [1, 0] = 4"
  by code_simp+

lemma reachable_path: "reachable example_config path_state"
proof -
  obtain r s' where w: "VMwrite example_config 27 7 (VMinitialize example_config init_state) = Some (r, s')"
    using VMwrite_total by blast
  then have "step example_config (Write 27 7) (VMinitialize example_config init_state) = Some path_state"
    by (simp add: step_def path_state_def)
  then show ?thesis using reachable.step [OF reachable.init] by blast
qed

lemma walking_path: "walking example_config 16 1 1 path_state"
proof -
  have "walk_levels example_config 16 True [0 ..< 1] (0, path_state) = Some (1, path_state)"
    using walk_first_hit [of example_config 16 path_state] path_eval(3) by simp
  moreover have "(16 :: u64) < VIRTUAL_MEMORY_SIZE example_config" "1 \<le> TABLES_DEPTH example_config"
    by (simp_all add: VMS_example D_example(2))
  ultimately show ?thesis
    unfolding walking_def using reachable_path
    by (intro exI [of _ path_state]) simp
qed

lemma example_unmapped:
  "descend example_config example_state 0 (digits example_config 63) = None"
  by code_simp

subsection \<open>The claims at these states\<close>

theorem vm_range_error_witness:
  "VMread example_config 64 example_state = Some (0, None, example_state)
   \<and> VMwrite example_config 64 7 example_state = Some (0, example_state)
   \<and> (\<exists>x s'. VMread example_config 63 example_state = Some (1, Some x, s'))
   \<and> (\<exists>s'. VMwrite example_config 63 7 example_state = Some (1, s'))
   \<and> walk example_config 63 False example_state = None
   \<and> (\<exists>F s'. VMread example_config 63 example_state
                  = Some (1, Some (PMread (phys example_config F (offsetOf example_config 63)) s'), s')
          \<and> node example_config s' (digits example_config 63) F \<and> F \<noteq> 0
          \<and> walk example_config 63 False s' = Some (F, s'))
   \<and> (\<exists>F s'. VMwrite example_config 63 7 example_state = Some (1, s')
          \<and> node example_config s' (digits example_config 63) F \<and> F \<noteq> 0
          \<and> walk example_config 63 False s' = Some (F, s')
          \<and> PMread (phys example_config F (offsetOf example_config 63)) s' = 7)"
proof -
  have a: "VIRTUAL_MEMORY_SIZE example_config \<le> 64" "(63 :: u64) < VIRTUAL_MEMORY_SIZE example_config"
    by (simp_all add: VMS_example)
  have n: "walk example_config 63 False example_state = None"
    by (simp add: walk_nocreate example_unmapped)
  show ?thesis
    using vm_range_error [of example_config 64 example_state 7]
      vm_range_error [of example_config 63 example_state 7]
      a n valid_example reachable_example
    by blast
qed

theorem allocation_priority_witness:
  "fst (allocateFrame example_config 0 1 4 False reuse_state) = 1
   \<and> maxFrame (scan example_config reuse_state 0 0 0 4 0 scanInfo_init) + 1 < NUM_FRAMES example_config
   \<and> (\<exists>kp r P. candidate example_config reuse_state 0 (kp @ [r])
                    (fst (allocateFrame example_config 0 1 4 False reuse_state))
          \<and> node example_config reuse_state kp P
          \<and> snd (allocateFrame example_config 0 1 4 False reuse_state)
              = clearFrame example_config (fst (allocateFrame example_config 0 1 4 False reuse_state)) False
                  (PMwrite (phys example_config P r) 0 reuse_state))
   \<and> fst (allocateFrame example_config 0 0 0 False (VMinitialize example_config init_state)) = 1
   \<and> snd (allocateFrame example_config 0 0 0 False (VMinitialize example_config init_state))
       = clearFrame example_config 1 False (VMinitialize example_config init_state)
   \<and> (\<exists>q P. length q = TABLES_DEPTH example_config
     \<and> node example_config example_state q (fst (allocateFrame example_config 0 1 4 False example_state))
     \<and> node example_config example_state (butlast q) P
     \<and> snd (allocateFrame example_config 0 1 4 False example_state)
        = clearFrame example_config (fst (allocateFrame example_config 0 1 4 False example_state)) False
            (PMwrite (phys example_config P (last q)) 0
               (PMevict example_config (fst (allocateFrame example_config 0 1 4 False example_state))
                  (page_of example_config q) example_state)))"
proof -
  let ?R = "allocateFrame example_config 0 1 4 False reuse_state"
  let ?S0 = "VMinitialize example_config init_state"
  let ?F = "allocateFrame example_config 0 0 0 False ?S0"
  let ?E = "allocateFrame example_config 0 1 4 False example_state"
  have reuse: "\<exists>kp r P. candidate example_config reuse_state 0 (kp @ [r]) (fst ?R)
          \<and> node example_config reuse_state kp P
          \<and> snd ?R = clearFrame example_config (fst ?R) False (PMwrite (phys example_config P r) 0 reuse_state)"
  proof -
    have "?R = (fst ?R, snd ?R)" by simp
    from allocation_priority [OF fault_ctx_reuse this]
    obtain M where "(\<exists>ds f. candidate example_config reuse_state 0 ds f) \<longrightarrow>
           (\<exists>kp r P. candidate example_config reuse_state 0 (kp @ [r]) (fst ?R)
                    \<and> node example_config reuse_state kp P
                    \<and> snd ?R = clearFrame example_config (fst ?R) False
                                 (PMwrite (phys example_config P r) 0 reuse_state))"
      by blast
    then show ?thesis using reuse_eval(3) by blast
  qed
  have free: "maxFrame (scan example_config reuse_state 0 0 0 4 0 scanInfo_init) + 1 < NUM_FRAMES example_config"
  proof -
    have "NUM_FRAMES example_config = 3" by (simp add: example_config_def)
    then show ?thesis unfolding reuse_eval(4) by simp
  qed
  have fresh: "fst ?F = 1 \<and> snd ?F = clearFrame example_config 1 False ?S0"
  proof -
    have ctx: "fault_ctx example_config ?S0 [] 0 0 0"
      using walker_call_ctx [OF valid_example walker_call_init] by (simp add: init_eval(4,5))
    have wf: "tree_wf example_config ?S0" using ctx tree_inv_wf by (auto simp: fault_ctx_def)
    have nc: "\<not> (\<exists>ds f. candidate example_config ?S0 0 ds f)"
      using empty_iff_candidate [OF valid_example wf, of 0 0] init_eval(2) by simp
    have "?F = (fst ?F, snd ?F)" by simp
    from allocation_priority [OF ctx this]
    obtain M where M: "\<forall>ds g. node example_config ?S0 ds g \<longrightarrow> g \<le> M"
      "\<exists>ds. node example_config ?S0 ds M"
      "\<not> (\<exists>ds f. candidate example_config ?S0 0 ds f) \<and> M + 1 < NUM_FRAMES example_config \<longrightarrow>
           fst ?F = M + 1 \<and> snd ?F = clearFrame example_config (fst ?F) False ?S0"
      by blast
    have "M = 0" using greatest_is_maxFrame [OF D_example(1) M(1,2), of 0 0] init_eval(3) by simp
    moreover have "(0 :: u64) + 1 < NUM_FRAMES example_config" by (simp add: example_config_def)
    ultimately show ?thesis using M(3) nc by simp
  qed
  have evict: "\<exists>q P. length q = TABLES_DEPTH example_config
     \<and> node example_config example_state q (fst ?E)
     \<and> node example_config example_state (butlast q) P
     \<and> snd ?E = clearFrame example_config (fst ?E) False
            (PMwrite (phys example_config P (last q)) 0
               (PMevict example_config (fst ?E) (page_of example_config q) example_state))"
  proof -
    have ctx: "fault_ctx example_config example_state [] 0 1 4"
      using walker_call_ctx [OF valid_example walker_call_example] by (simp add: example_target)
    have "?E = (fst ?E, snd ?E)" by simp
    from allocation_priority [OF ctx this]
    obtain M where M: "\<forall>ds g. node example_config example_state ds g \<longrightarrow> g \<le> M"
      "\<exists>ds. node example_config example_state ds M"
      "\<not> (\<exists>ds f. candidate example_config example_state 0 ds f) \<and> \<not> M + 1 < NUM_FRAMES example_config \<longrightarrow>
           (\<exists>q P. length q = TABLES_DEPTH example_config \<and> node example_config example_state q (fst ?E)
                 \<and> node example_config example_state (butlast q) P
                 \<and> snd ?E = clearFrame example_config (fst ?E) False
                          (PMwrite (phys example_config P (last q)) 0
                             (PMevict example_config (fst ?E) (page_of example_config q) example_state)))"
      by blast
    have "\<not> M + 1 < NUM_FRAMES example_config" using example_full M(1,2) by blast
    then show ?thesis using M(3) example_no_candidate by blast
  qed
  show ?thesis using reuse_eval(5) free reuse fresh evict by (intro conjI) simp_all
qed


theorem path_reconstruction_witness:
  "page_of example_config [1, 2] = 6
   \<and> indexAtLevel example_config (push_bit (OFFSET_WIDTH example_config) (page_of example_config [1, 2])) 0 = 1
   \<and> indexAtLevel example_config (push_bit (OFFSET_WIDTH example_config) (page_of example_config [1, 2])) 1 = 2
   \<and> walk example_config 27 False path_state = Some (2, path_state)
   \<and> victimFrame (scan example_config path_state 0 0 0 4 1 scanInfo_init) = 2
   \<and> victimPage (scan example_config path_state 0 0 0 4 1 scanInfo_init) = 6
   \<and> (\<exists>P. node example_config path_state [1] P
         \<and> allocateFrame example_config 1 0 4 True path_state
             = (2, clearFrame example_config 2 True
                     (PMwrite (phys example_config P 2) 0 (PMevict example_config 2 6 path_state))))
   \<and> (\<exists>X s1. allocateFrame example_config 1 0 4 True path_state = (X, s1)
         \<and> walk_level example_config 16 True 1 (1, path_state)
             = Some (X, PMwrite (phys example_config 1 0) (ucast X) (PMrestore example_config X 4 s1))
         \<and> node example_config
              (PMwrite (phys example_config 1 0) (ucast X) (PMrestore example_config X 4 s1)) [1, 0] X)"
proof -
  let ?A = "allocateFrame example_config 1 0 4 True path_state"
  let ?info = "scan example_config path_state 0 0 0 4 1 scanInfo_init"
  have l: "length [1 :: u64, 2] = TABLES_DEPTH example_config" by (simp add: example_config_def)
  note k = path_reconstruction [OF valid_example walking_path path_eval(2) l]
  have k2: "\<forall>l < TABLES_DEPTH example_config.
      indexAtLevel example_config (push_bit (OFFSET_WIDTH example_config) (page_of example_config [1, 2])) l
        = [1, 2] ! l"
    and k3: "\<forall>va < VIRTUAL_MEMORY_SIZE example_config.
          walk example_config va False path_state = Some (2, path_state)
            \<longleftrightarrow> drop_bit (OFFSET_WIDTH example_config) va = page_of example_config [1, 2]"
    and k5: "\<forall>t pf. victimFrame (scan example_config path_state 0 0 0 t pf scanInfo_init) = 2 \<longrightarrow>
          victimPage (scan example_config path_state 0 0 0 t pf scanInfo_init) = page_of example_config [1, 2]
          \<and> victimRowInParent (scan example_config path_state 0 0 0 t pf scanInfo_init) = last [1, 2]
          \<and> node example_config path_state (butlast [1, 2])
               (victimParent (scan example_config path_state 0 0 0 t pf scanInfo_init))"
    and k6: "\<forall>pf row t isLeaf s'. allocateFrame example_config pf row t isLeaf path_state = (2, s') \<longrightarrow>
          (\<exists>P. node example_config path_state (butlast [1, 2]) P
             \<and> s' = clearFrame example_config 2 isLeaf
                      (PMwrite (phys example_config P (last [1, 2])) 0
                         (PMevict example_config 2 (page_of example_config [1, 2]) path_state)))"
    and k7: "1 + 1 = TABLES_DEPTH example_config
          \<and> PMread (phys example_config 1 (indexAtLevel example_config 16 1)) path_state = 0 \<longrightarrow>
          (\<exists>X s1. allocateFrame example_config 1 (indexAtLevel example_config 16 1)
                     (drop_bit (OFFSET_WIDTH example_config) 16) True path_state = (X, s1)
             \<and> walk_level example_config 16 True 1 (1, path_state)
                 = Some (X, PMwrite (phys example_config 1 (indexAtLevel example_config 16 1)) (ucast X)
                              (PMrestore example_config X (page_of example_config (digits example_config 16)) s1))
             \<and> node example_config
                  (PMwrite (phys example_config 1 (indexAtLevel example_config 16 1)) (ucast X)
                     (PMrestore example_config X (page_of example_config (digits example_config 16)) s1))
                  (digits example_config 16) X)"
    using k by blast+
  have a2: "indexAtLevel example_config (push_bit (OFFSET_WIDTH example_config) (page_of example_config [1, 2])) 0 = 1"
    "indexAtLevel example_config (push_bit (OFFSET_WIDTH example_config) (page_of example_config [1, 2])) 1 = 2"
    using k2 D_example(2) by simp_all
  have a3: "walk example_config 27 False path_state = Some (2, path_state)"
    using k3 [rule_format, of 27] path_eval(1,9) by (simp add: VMS_example)
  have a5: "victimPage ?info = 6" using k5 [rule_format, of 4 1] path_eval(5,1) by simp
  have "?A = (2, snd ?A)" using path_eval(6) by (cases ?A) simp
  then obtain P where P: "node example_config path_state (butlast [1, 2]) P"
    "snd ?A = clearFrame example_config 2 True
                      (PMwrite (phys example_config P (last [1, 2])) 0
                         (PMevict example_config 2 (page_of example_config [1, 2]) path_state))"
    using k6 [rule_format, of 1 0 4 True "snd ?A"] by blast
  have a6: "\<exists>P. node example_config path_state [1] P
         \<and> ?A = (2, clearFrame example_config 2 True
                     (PMwrite (phys example_config P 2) 0 (PMevict example_config 2 6 path_state)))"
    using P \<open>?A = (2, snd ?A)\<close> path_eval(1) by (intro exI [of _ P]) simp
  have "1 + 1 = TABLES_DEPTH example_config" by (simp add: example_config_def)
  then have a7: "\<exists>X s1. ?A = (X, s1)
         \<and> walk_level example_config 16 True 1 (1, path_state)
             = Some (X, PMwrite (phys example_config 1 0) (ucast X) (PMrestore example_config X 4 s1))
         \<and> node example_config
              (PMwrite (phys example_config 1 0) (ucast X) (PMrestore example_config X 4 s1)) [1, 0] X"
    using k7 path_eval(4) unfolding path_eval(7,8,10) example_target(2) by blast
  show ?thesis using path_eval(1,5) a2 a3 a5 a6 a7 by (intro conjI) simp_all
qed

end
